theory Spec2Isabelle
  imports Main "HOL-Library.Word"
begin

chapter \<open>Job orchestration core of youtube-audio-api-scalable: model and verification\<close>

text \<open>
  The Go sources are embedded shallowly.  A struct is a record, a string-typed enumeration a
  datatype, a Go \<open>map\<close> a partial function, a pointer an address into an explicit heap, and
  every call that talks to the outside world (the clock, the environment, Redis, the external
  executor, the scheduler's choice in a \<open>select\<close>) receives the outside world's answer as an
  argument.  Go's \<open>int\<close> is modelled by HOL's \<open>int\<close>; the only place where the width of the
  machine integer decides anything is \<open>strconv.Atoi\<close>, whose range check is written out for
  the 64-bit platform.  Log output is not modelled.
\<close>

section \<open>Configuration (shared/config.go)\<close>

subsection \<open>\<open>strconv.Atoi\<close>\<close>

text \<open>
  \<open>strconv.Atoi\<close> is the standard library's: an optional sign, then one or more decimal digits,
  nothing else; a value that does not fit the 64-bit \<open>int\<close> is a range error.
\<close>

datatype NumError = ErrSyntax | ErrRange

definition is_digit :: "char \<Rightarrow> bool" where
  "is_digit c = (48 \<le> (of_char c :: int) \<and> (of_char c :: int) \<le> 57)"

fun digits_value :: "int \<Rightarrow> string \<Rightarrow> int option" where
  "digits_value n [] = Some n"
| "digits_value n (c # cs) =
     (if is_digit c then digits_value (n * 10 + (of_char c - 48)) cs else None)"

definition Atoi :: "string \<Rightarrow> NumError + int" where
  "Atoi s =
     (case s of
        [] \<Rightarrow> Inl ErrSyntax
      | c # cs \<Rightarrow>
          (let neg = (c = CHR ''-'');
               ds = (if c = CHR ''-'' \<or> c = CHR ''+'' then cs else s)
           in if ds = [] then Inl ErrSyntax
              else (case digits_value 0 ds of
                      None \<Rightarrow> Inl ErrSyntax
                    | Some n \<Rightarrow>
                        if neg
                        then (if n \<le> 9223372036854775808 then Inr (- n) else Inl ErrRange)
                        else (if n \<le> 9223372036854775807 then Inr n else Inl ErrRange))))"

subsection \<open>\<open>Config\<close> and \<open>LoadConfig\<close>\<close>

definition DefaultAPIGatewayPort :: string where "DefaultAPIGatewayPort = ''8080''"
definition DefaultWorkerPort :: string where "DefaultWorkerPort = ''8081''"
definition DefaultMaxWorkers :: int where "DefaultMaxWorkers = 3"
definition DefaultAdminToken :: string where
  "DefaultAdminToken = ''super-secret-admin-token-change-me''"
definition DefaultAllowedOrigins :: string where "DefaultAllowedOrigins = ''*''"
definition DefaultAllowedVideoHosts :: string where
  "DefaultAllowedVideoHosts = ''youtube.com,youtu.be''"
definition DefaultRateLimitRPM :: int where "DefaultRateLimitRPM = 300"
definition DefaultMaxVideoDurationSeconds :: int where "DefaultMaxVideoDurationSeconds = 1200"
definition DefaultQueueName :: string where "DefaultQueueName = ''jobs''"

record Config =
  APIGatewayPort :: string
  WorkerPort :: string
  MaxWorkers :: int
  AdminToken :: string
  RedisAddr :: string
  RedisPassword :: string
  RedisDB :: int
  QueueName :: string
  QueueMaxLength :: int
  AllowedOrigins :: "string list"
  AllowedVideoHosts :: "string list"
  RateLimitRPM :: int
  PublicAPIBaseURL :: string
  YtDlpPath :: string
  FFmpegPath :: string
  MaxVideoDurationSeconds :: int

text \<open>
  The process environment is a function from variable names to values; \<open>os.Getenv\<close> gives the
  empty string for a variable that is not set.  \<open>strings.TrimSpace\<close> (Unicode white space) is
  the library's and is a parameter \<open>trim\<close> of everything that calls it; \<open>strings.Split\<close> on a
  comma is written out.
\<close>

type_synonym environ = "string \<Rightarrow> string"

fun Split_comma :: "string \<Rightarrow> string list" where
  "Split_comma [] = [[]]"
| "Split_comma (c # cs) =
     (if c = CHR '','' then [] # Split_comma cs
      else (case Split_comma cs of [] \<Rightarrow> [[c]] | p # ps \<Rightarrow> (c # p) # ps))"

definition valueOrDefault :: "(string \<Rightarrow> string) \<Rightarrow> string \<Rightarrow> string \<Rightarrow> string" where
  "valueOrDefault trim s fallback = (if trim s = [] then fallback else s)"

definition splitAndClean :: "(string \<Rightarrow> string) \<Rightarrow> string \<Rightarrow> string list" where
  "splitAndClean trim csv =
     (if trim csv = [] then []
      else (let out = filter (\<lambda>t. t \<noteq> []) (map trim (Split_comma csv))
            in if length out = 0 then [''*''] else out))"

definition LoadConfig :: "(string \<Rightarrow> string) \<Rightarrow> environ \<Rightarrow> Config" where
  "LoadConfig trim getenv =
     (let maxWorkers =
            (case Atoi (getenv ''MAX_WORKERS'') of
               Inl err \<Rightarrow> DefaultMaxWorkers
             | Inr n \<Rightarrow> if n \<le> 0 then DefaultMaxWorkers else n);
          redisDB =
            (let v = getenv ''REDIS_DB'' in
             if v \<noteq> [] then (case Atoi v of Inr n \<Rightarrow> if n \<ge> 0 then n else 0 | Inl err \<Rightarrow> 0)
             else 0);
          rateLimit =
            (let v = getenv ''RATE_LIMIT_RPM'' in
             if v \<noteq> []
             then (case Atoi v of
                     Inr n \<Rightarrow> if n > 0 then n else DefaultRateLimitRPM
                   | Inl err \<Rightarrow> DefaultRateLimitRPM)
             else DefaultRateLimitRPM);
          queueMaxLen =
            (let v = getenv ''QUEUE_MAX_LENGTH'' in
             if v \<noteq> [] then (case Atoi v of Inr n \<Rightarrow> if n \<ge> 0 then n else 0 | Inl err \<Rightarrow> 0)
             else 0);
          maxDur =
            (let v = getenv ''MAX_VIDEO_DURATION_SECONDS'' in
             if v \<noteq> []
             then (case Atoi v of
                     Inr n \<Rightarrow> if n > 0 then n else DefaultMaxVideoDurationSeconds
                   | Inl err \<Rightarrow> DefaultMaxVideoDurationSeconds)
             else DefaultMaxVideoDurationSeconds);
          adminToken =
            (let t = getenv ''ADMIN_TOKEN'' in if trim t = [] then DefaultAdminToken else t);
          allowedOriginsCSV =
            (let c = getenv ''ALLOWED_ORIGINS'' in
             if trim c = [] then DefaultAllowedOrigins else c);
          allowedHostsCSV =
            (let c = getenv ''ALLOWED_VIDEO_HOSTS'' in
             if trim c = [] then DefaultAllowedVideoHosts else c)
      in \<lparr> APIGatewayPort = getenv ''API_GATEWAY_PORT'',
           WorkerPort = getenv ''WORKER_PORT'',
           MaxWorkers = maxWorkers,
           AdminToken = adminToken,
           RedisAddr = getenv ''REDIS_ADDR'',
           RedisPassword = getenv ''REDIS_PASSWORD'',
           RedisDB = redisDB,
           QueueName = valueOrDefault trim (getenv ''QUEUE_NAME'') DefaultQueueName,
           QueueMaxLength = queueMaxLen,
           AllowedOrigins = splitAndClean trim allowedOriginsCSV,
           AllowedVideoHosts = splitAndClean trim allowedHostsCSV,
           RateLimitRPM = rateLimit,
           PublicAPIBaseURL = getenv ''PUBLIC_API_BASE_URL'',
           YtDlpPath = getenv ''YTDLP_PATH'',
           FFmpegPath = getenv ''FFMPEG_PATH'',
           MaxVideoDurationSeconds = maxDur \<rparr>)"

section \<open>Time\<close>

text \<open>
  A \<open>time.Time\<close> is the number of nanoseconds since the Unix epoch, a \<open>time.Duration\<close> a number
  of nanoseconds.  Every \<open>time.Now()\<close> of the source is an argument \<open>now\<close> of the model.  The zero
  \<open>Time\<close> is 1 January of year 1.  \<open>Time.Sub\<close> saturates at the ends of the 64-bit \<open>Duration\<close>;
  \<open>Time.Unix\<close> rounds down to seconds; Go's integer division truncates towards zero.
\<close>

type_synonym time = int
type_synonym Duration = int

definition Second :: Duration where "Second = 1000000000"
definition maxDuration :: Duration where "maxDuration = 9223372036854775807"
definition minDuration :: Duration where "minDuration = - 9223372036854775808"
definition zeroTime :: time where "zeroTime = - 62135596800 * 1000000000"

definition Sub :: "time \<Rightarrow> time \<Rightarrow> Duration" where
  "Sub t u =
     (let d = t - u
      in if minDuration \<le> d \<and> d \<le> maxDuration then d
         else if t < u then minDuration else maxDuration)"

definition Unix :: "time \<Rightarrow> int" where
  "Unix t = t div 1000000000"

definition go_quot :: "int \<Rightarrow> int \<Rightarrow> int" where
  "go_quot a b = sgn a * sgn b * (\<bar>a\<bar> div \<bar>b\<bar>)"

section \<open>Errors\<close>

text \<open>
  The source builds its errors with \<open>fmt.Errorf\<close>; each constructor below is one of those
  messages (with the value of its \<open>%s\<close>), or an error handed up from the Redis client.
  \<open>error_text\<close> is \<open>err.Error()\<close>.
\<close>

datatype RedisError = RedisNil | WrongType | NotAnInteger | Overflow | Network

datatype error =
    JobAlreadyExists string
  | JobNotFound string
  | JobNotFoundForUpdate string
  | JobNotFoundForDeletion string
  | QueueClosed
  | QueueFull string
  | RedisClientNil
  | Backend RedisError

fun redis_error_text :: "RedisError \<Rightarrow> string" where
  "redis_error_text RedisNil = ''redis: nil''"
| "redis_error_text WrongType =
     ''WRONGTYPE Operation against a key holding the wrong kind of value''"
| "redis_error_text NotAnInteger = ''ERR value is not an integer or out of range''"
| "redis_error_text Overflow = ''ERR increment or decrement would overflow''"
| "redis_error_text Network = ''i/o timeout''"

fun error_text :: "error \<Rightarrow> string" where
  "error_text (JobAlreadyExists i) = ''job with ID '' @ i @ '' already exists''"
| "error_text (JobNotFound i) = ''job with ID '' @ i @ '' not found''"
| "error_text (JobNotFoundForUpdate i) = ''job with ID '' @ i @ '' not found for update''"
| "error_text (JobNotFoundForDeletion i) = ''job with ID '' @ i @ '' not found for deletion''"
| "error_text QueueClosed = ''queue is closed, cannot publish''"
| "error_text (QueueFull i) = ''queue is full, cannot publish job '' @ i"
| "error_text RedisClientNil = ''redis client is nil''"
| "error_text (Backend e) = redis_error_text e"

text \<open>The spec's error taxonomy, read off the messages.\<close>

fun is_NotFound :: "error \<Rightarrow> bool" where
  "is_NotFound (JobNotFound i) = True"
| "is_NotFound (JobNotFoundForUpdate i) = True"
| "is_NotFound (JobNotFoundForDeletion i) = True"
| "is_NotFound e = False"

section \<open>The Redis server as the clients see it\<close>

text \<open>
  Redis is not part of the repository; the model below is the documented behaviour of the few
  commands the source sends (\<open>INCR\<close>, \<open>EXPIRE\<close>, \<open>DEL\<close>, \<open>ZREM\<close>), over one key space.  A value
  is a string, a string that reads as a 64-bit integer (what \<open>INCR\<close> leaves behind), or a
  sorted set (its members with their scores).  A key with a deadline is gone once the deadline has passed.

  A call either gets through (\<open>NetOk\<close>), fails before the server saw it (\<open>NetErr\<close>), or is executed
  by the server while the reply is lost or arrives after the client's timeout (\<open>NetLost\<close>); in the
  last two cases the client gets an error.
\<close>

datatype RedisValue = RString string | RInteger int | RZSet "(string \<times> int) list"

record Redis =
  store :: "string \<rightharpoonup> RedisValue"
  deadline :: "string \<rightharpoonup> time"

definition redis_empty :: Redis where
  "redis_empty = \<lparr> store = Map.empty, deadline = Map.empty \<rparr>"

datatype Net = NetOk | NetErr | NetLost

definition expire_key :: "time \<Rightarrow> string \<Rightarrow> Redis \<Rightarrow> Redis" where
  "expire_key now k srv =
     (case deadline srv k of
        None \<Rightarrow> srv
      | Some d \<Rightarrow>
          if d \<le> now
          then srv\<lparr> store := (store srv)(k := None), deadline := (deadline srv)(k := None) \<rparr>
          else srv)"

definition redis_INCR :: "time \<Rightarrow> string \<Rightarrow> Redis \<Rightarrow> (RedisError + int) \<times> Redis" where
  "redis_INCR now k srv0 =
     (let srv = expire_key now k srv0
      in case store srv k of
           None \<Rightarrow> (Inr 1, srv\<lparr> store := (store srv)(k \<mapsto> RInteger 1) \<rparr>)
         | Some (RInteger n) \<Rightarrow>
             if n \<ge> 9223372036854775807 then (Inl Overflow, srv)
             else (Inr (n + 1), srv\<lparr> store := (store srv)(k \<mapsto> RInteger (n + 1)) \<rparr>)
         | Some (RString v) \<Rightarrow> (Inl NotAnInteger, srv)
         | Some (RZSet z) \<Rightarrow> (Inl WrongType, srv))"

definition redis_EXPIRE :: "time \<Rightarrow> string \<Rightarrow> Duration \<Rightarrow> Redis \<Rightarrow> (RedisError + bool) \<times> Redis" where
  "redis_EXPIRE now k d srv0 =
     (let srv = expire_key now k srv0
      in case store srv k of
           None \<Rightarrow> (Inr False, srv)
         | Some v \<Rightarrow> (Inr True, srv\<lparr> deadline := (deadline srv)(k \<mapsto> now + d) \<rparr>))"

definition redis_DEL :: "time \<Rightarrow> string \<Rightarrow> Redis \<Rightarrow> (RedisError + int) \<times> Redis" where
  "redis_DEL now k srv0 =
     (let srv = expire_key now k srv0
      in case store srv k of
           None \<Rightarrow> (Inr 0, srv)
         | Some v \<Rightarrow>
             (Inr 1, srv\<lparr> store := (store srv)(k := None), deadline := (deadline srv)(k := None) \<rparr>))"

definition redis_ZREM :: "time \<Rightarrow> string \<Rightarrow> string \<Rightarrow> Redis \<Rightarrow> (RedisError + int) \<times> Redis" where
  "redis_ZREM now k member srv0 =
     (let srv = expire_key now k srv0
      in case store srv k of
           None \<Rightarrow> (Inr 0, srv)
         | Some (RZSet z) \<Rightarrow>
             (case map_of z member of
                None \<Rightarrow> (Inr 0, srv)
              | Some score \<Rightarrow>
                  (let z' = filter (\<lambda>e. fst e \<noteq> member) z
                   in if z' = []
                      then (Inr 1, srv\<lparr> store := (store srv)(k := None),
                                         deadline := (deadline srv)(k := None) \<rparr>)
                      else (Inr 1, srv\<lparr> store := (store srv)(k \<mapsto> RZSet z') \<rparr>)))
         | Some v \<Rightarrow> (Inl WrongType, srv))"

text \<open>One round trip of a client: the command as the server executes it, seen through the network.\<close>

definition roundtrip ::
  "Net \<Rightarrow> (Redis \<Rightarrow> (RedisError + 'a) \<times> Redis) \<Rightarrow> Redis \<Rightarrow> (RedisError + 'a) \<times> Redis" where
  "roundtrip net cmd srv =
     (case net of
        NetOk \<Rightarrow> cmd srv
      | NetErr \<Rightarrow> (Inl Network, srv)
      | NetLost \<Rightarrow> (Inl Network, snd (cmd srv)))"

text \<open>\<open>*redis.Client\<close>: \<open>None\<close> is the nil client (shared/redis\_client.go).\<close>

record RedisClient =
  Addr :: string
  Password :: string
  DB :: int

definition NewRedisClient :: "Config \<Rightarrow> RedisClient option" where
  "NewRedisClient cfg =
     (if RedisAddr cfg = [] then None
      else Some \<lparr> Addr = RedisAddr cfg, Password = RedisPassword cfg, DB = RedisDB cfg \<rparr>)"

section \<open>The rate limiter (shared/ratelimit.go)\<close>

text \<open>\<open>%d\<close> of \<open>fmt.Sprintf\<close>: the decimal digits of an integer.\<close>

fun nat_digits :: "nat \<Rightarrow> string" where
  "nat_digits n =
     (if n < 10 then [char_of (48 + n)]
      else nat_digits (n div 10) @ [char_of (48 + n mod 10)])"

declare nat_digits.simps [simp del]

definition Itoa :: "int \<Rightarrow> string" where
  "Itoa i = (if i < 0 then CHR ''-'' # nat_digits (nat (- i)) else nat_digits (nat i))"

record RateLimiter =
  cfg :: Config
  redis :: "RedisClient option"
  inMemCount :: "string \<rightharpoonup> int"
  inMemTTL :: time

definition NewRateLimiter :: "Config \<Rightarrow> RedisClient option \<Rightarrow> RateLimiter" where
  "NewRateLimiter c redisClient =
     \<lparr> cfg = c, redis = redisClient, inMemCount = Map.empty, inMemTTL = zeroTime \<rparr>"

definition minuteKey :: "string \<Rightarrow> time \<Rightarrow> string" where
  "minuteKey ip now = ''ratelimit:'' @ ip @ '':'' @ Itoa (go_quot (Unix now) 60)"

text \<open>Reading a Go map at a key it does not hold gives the zero value.\<close>

definition count_of :: "(string \<rightharpoonup> int) \<Rightarrow> string \<Rightarrow> int" where
  "count_of m ip = (case m ip of None \<Rightarrow> 0 | Some c \<Rightarrow> c)"

definition allowInMem :: "RateLimiter \<Rightarrow> string \<Rightarrow> int \<Rightarrow> time \<Rightarrow> (bool \<times> int) \<times> RateLimiter" where
  "allowInMem r ip rpm now =
     (let r1 = (if Sub now (inMemTTL r) > 60 * Second
                then r\<lparr> inMemCount := Map.empty, inMemTTL := now \<rparr>
                else r);
          r2 = r1\<lparr> inMemCount := (inMemCount r1)(ip \<mapsto> count_of (inMemCount r1) ip + 1) \<rparr>;
          n = count_of (inMemCount r2) ip;
          remaining = rpm - n
      in ((n \<le> rpm, remaining), r2))"

text \<open>
  \<open>Allow\<close> takes the limiter, the Redis server, the fate of its two round trips (\<open>INCR\<close>, then
  \<open>EXPIRE\<close>), the client key and the time; it returns the verdict and what it left behind.
\<close>

definition Allow ::
  "RateLimiter \<Rightarrow> Redis \<Rightarrow> Net \<Rightarrow> Net \<Rightarrow> string \<Rightarrow> time \<Rightarrow> (bool \<times> int) \<times> RateLimiter \<times> Redis" where
  "Allow r srv net1 net2 ip now =
     (let rpm = RateLimitRPM (cfg r)
      in if rpm \<le> 0 then ((True, rpm), r, srv)
         else (case redis r of
                 Some client \<Rightarrow>
                   (let key = minuteKey ip now;
                        (res, srv1) = roundtrip net1 (redis_INCR now key) srv
                    in case res of
                         Inl err \<Rightarrow>
                           (let (verdict, r') = allowInMem r ip rpm now in (verdict, r', srv1))
                       | Inr n \<Rightarrow>
                           (let srv2 = (if n = 1
                                        then snd (roundtrip net2 (redis_EXPIRE now key (65 * Second)) srv1)
                                        else srv1);
                                remaining = rpm - n
                            in ((n \<le> rpm, remaining), r, srv2)))
               | None \<Rightarrow>
                   (let (verdict, r') = allowInMem r ip rpm now in (verdict, r', srv))))"

text \<open>
  A run of the limiter: the calls of one process in the order they are served, every Redis
  round trip getting through; it yields the verdicts in order and the final limiter and
  server.  \<open>quota_cfg q\<close> is the configuration of the empty environment with the quota set
  to \<open>q\<close>.
\<close>

fun Allow_run ::
  "RateLimiter \<Rightarrow> Redis \<Rightarrow> (string \<times> time) list \<Rightarrow> (bool \<times> int) list \<times> RateLimiter \<times> Redis" where
  "Allow_run r srv [] = ([], r, srv)"
| "Allow_run r srv ((ip, now) # calls) =
     (let (verdict, r', srv') = Allow r srv NetOk NetOk ip now;
          (verdicts, r'', srv'') = Allow_run r' srv' calls
      in (verdict # verdicts, r'', srv''))"

text \<open>
  The windows as the spec describes them.  Volatile backend: the window is reset whenever the
  time elapsed since the last reset exceeds one minute; \<open>volatile_window u w calls\<close> is the list
  of calls of the current window after \<open>calls\<close>, when the last reset was at \<open>u\<close> and \<open>w\<close> are the
  calls since.  Durable backend: the window of a call is its minute of the Unix clock.
  \<open>requests_of ip w\<close> counts the requests of client \<open>ip\<close> among \<open>w\<close>.
\<close>

fun volatile_window :: "time \<Rightarrow> (string \<times> time) list \<Rightarrow> (string \<times> time) list \<Rightarrow> (string \<times> time) list" where
  "volatile_window u w [] = w"
| "volatile_window u w ((ip, t) # calls) =
     (if t - u > 60 * Second then volatile_window t [(ip, t)] calls
      else volatile_window u (w @ [(ip, t)]) calls)"

definition durable_window :: "time \<Rightarrow> (string \<times> time) list \<Rightarrow> (string \<times> time) list" where
  "durable_window now calls = filter (\<lambda>c. go_quot (Unix (snd c)) 60 = go_quot (Unix now) 60) calls"

definition requests_of :: "string \<Rightarrow> (string \<times> time) list \<Rightarrow> int" where
  "requests_of ip w = int (length (filter (\<lambda>c. fst c = ip) w))"

definition quota_cfg :: "int \<Rightarrow> Config" where
  "quota_cfg q = (LoadConfig id (\<lambda>k. []))\<lparr> RateLimitRPM := q \<rparr>"

text \<open>
  Bookkeeping for the proofs about runs: the time of the volatile limiter's last reset, the
  minute of a time and the Redis key of a client and minute (so that \<open>minuteKey ip t\<close> is
  \<open>key_of ip (minute_of t)\<close>), the number of calls of a client in a minute, and what the Redis
  server holds after the calls \<open>pre\<close>, the last of them at time \<open>T\<close>: per client and minute one
  counter, which expires 65 seconds after the call that created it.
\<close>

fun volatile_reset :: "time \<Rightarrow> (string \<times> time) list \<Rightarrow> time" where
  "volatile_reset u [] = u"
| "volatile_reset u ((ip, t) # calls) = volatile_reset (if t - u > 60 * Second then t else u) calls"

definition minute_of :: "time \<Rightarrow> int" where
  "minute_of t = go_quot (Unix t) 60"

definition key_of :: "string \<Rightarrow> int \<Rightarrow> string" where
  "key_of ip m = ''ratelimit:'' @ ip @ '':'' @ Itoa m"

definition hits :: "(string \<times> time) list \<Rightarrow> string \<Rightarrow> int \<Rightarrow> int" where
  "hits pre ip m = int (length (filter (\<lambda>c. fst c = ip \<and> minute_of (snd c) = m) pre))"

definition durable_inv :: "(string \<times> time) list \<Rightarrow> time \<Rightarrow> Redis \<Rightarrow> bool" where
  "durable_inv pre T srv \<longleftrightarrow>
     (\<forall>ip m. if hits pre ip m = 0
             then store srv (key_of ip m) = None \<and> deadline srv (key_of ip m) = None
             else store srv (key_of ip m) = Some (RInteger (hits pre ip m))
                  \<and> (\<exists>t0. deadline srv (key_of ip m) = Some (t0 + 65 * Second)
                           \<and> minute_of t0 = m \<and> 0 \<le> t0 \<and> t0 \<le> T))"

section \<open>Jobs (shared/job.go)\<close>

text \<open>
  A \<open>float64\<close> is its 64 bits (the code only copies it).  \<open>JobStatus\<close> is a string type with
  four constants.  A pointer is an address into the heap below, \<open>None\<close> the nil pointer.
\<close>

type_synonym float64 = "64 word"
type_synonym addr = nat

record Metadata =
  Title :: string
  Uploader :: string
  Duration :: float64
  AudioURL :: string
  Ext :: string
  Abr :: int

record Request =
  URL :: string

datatype JobStatus = JobStatusPending | JobStatusProcessing | JobStatusCompleted | JobStatusFailed

fun status_text :: "JobStatus \<Rightarrow> string" where
  "status_text JobStatusPending = ''pending''"
| "status_text JobStatusProcessing = ''processing''"
| "status_text JobStatusCompleted = ''completed''"
| "status_text JobStatusFailed = ''failed''"

record JobMessage =
  JobID :: string
  OriginalURL :: string

record Job =
  ID :: string
  OriginalURL :: string
  Status :: JobStatus
  Metadata :: "addr option"
  DownloadEndpoint :: string
  Error :: string
  CreatedAt :: time
  StartedAt :: "addr option"
  CompletedAt :: "addr option"
  FilePath :: string

text \<open>
  (\<open>JobMessage\<close> and \<open>Job\<close> both have a field \<open>OriginalURL\<close>; the message's is written
  \<open>JobMessage.OriginalURL\<close>.)

  The heap holds the objects the code reaches through pointers: jobs, metadata and times.
  Allocation takes the next unused address; nothing is ever freed (Go is garbage collected,
  and no claim depends on memory being reclaimed).  What goes wrong, goes wrong as a value:
  a function that can panic returns an \<open>outcome\<close>.
\<close>

record heap =
  jobs_at :: "addr \<rightharpoonup> Job"
  metas_at :: "addr \<rightharpoonup> Metadata"
  times_at :: "addr \<rightharpoonup> time"
  next_addr :: addr

definition heap_empty :: heap where
  "heap_empty = \<lparr> jobs_at = Map.empty, metas_at = Map.empty, times_at = Map.empty, next_addr = 0 \<rparr>"

definition new_Job :: "heap \<Rightarrow> Job \<Rightarrow> addr \<times> heap" where
  "new_Job h j =
     (next_addr h, h\<lparr> jobs_at := (jobs_at h)(next_addr h \<mapsto> j), next_addr := Suc (next_addr h) \<rparr>)"

definition new_Metadata :: "heap \<Rightarrow> Metadata \<Rightarrow> addr \<times> heap" where
  "new_Metadata h m =
     (next_addr h, h\<lparr> metas_at := (metas_at h)(next_addr h \<mapsto> m), next_addr := Suc (next_addr h) \<rparr>)"

definition new_Time :: "heap \<Rightarrow> time \<Rightarrow> addr \<times> heap" where
  "new_Time h t =
     (next_addr h, h\<lparr> times_at := (times_at h)(next_addr h \<mapsto> t), next_addr := Suc (next_addr h) \<rparr>)"

datatype 'a outcome = Returns 'a | Panics string

definition nil_dereference :: string where
  "nil_dereference = ''invalid memory address or nil pointer dereference''"

section \<open>The volatile job store (shared/db.go)\<close>

text \<open>
  \<open>InMemoryDB\<close> is a map from job ids to pointers; its mutex makes every method one atomic
  step, which is what a function is.  The methods store and hand out pointers, so they take
  the heap along.  \<open>GetAllJobs\<close> (used by the admin listing only) is not modelled.
\<close>

record InMemoryDB =
  jobs :: "string \<rightharpoonup> addr"

definition NewInMemoryDB :: InMemoryDB where
  "NewInMemoryDB = \<lparr> jobs = Map.empty \<rparr>"

definition CreateJob :: "InMemoryDB \<Rightarrow> heap \<Rightarrow> addr \<Rightarrow> (error option \<times> InMemoryDB) outcome" where
  "CreateJob db h job =
     (case jobs_at h job of
        None \<Rightarrow> Panics nil_dereference
      | Some j \<Rightarrow>
          if jobs db (ID j) \<noteq> None then Returns (Some (JobAlreadyExists (ID j)), db)
          else Returns (None, db\<lparr> jobs := (jobs db)(ID j \<mapsto> job) \<rparr>))"

definition GetJob :: "InMemoryDB \<Rightarrow> heap \<Rightarrow> string \<Rightarrow> ((error + addr) \<times> heap) outcome" where
  "GetJob db h jobID =
     (case jobs db jobID of
        None \<Rightarrow> Returns (Inl (JobNotFound jobID), h)
      | Some job \<Rightarrow>
          (case jobs_at h job of
             None \<Rightarrow> Panics nil_dereference
           | Some j \<Rightarrow> (let (copiedJob, h') = new_Job h j in Returns (Inr copiedJob, h'))))"

definition UpdateJob :: "InMemoryDB \<Rightarrow> heap \<Rightarrow> addr \<Rightarrow> (error option \<times> InMemoryDB) outcome" where
  "UpdateJob db h job =
     (case jobs_at h job of
        None \<Rightarrow> Panics nil_dereference
      | Some j \<Rightarrow>
          if jobs db (ID j) = None then Returns (Some (JobNotFoundForUpdate (ID j)), db)
          else Returns (None, db\<lparr> jobs := (jobs db)(ID j \<mapsto> job) \<rparr>))"

definition DeleteJob :: "InMemoryDB \<Rightarrow> string \<Rightarrow> error option \<times> InMemoryDB" where
  "DeleteJob db jobID =
     (if jobs db jobID = None then (Some (JobNotFoundForDeletion jobID), db)
      else (None, db\<lparr> jobs := (jobs db)(jobID := None) \<rparr>))"

text \<open>
  What a caller sees of a stored job when it follows the pointers: the record and the objects
  its three pointer fields lead to.
\<close>

definition deep_view :: "heap \<Rightarrow> addr \<Rightarrow> (Job \<times> Metadata option \<times> time option \<times> time option) option" where
  "deep_view h a =
     (case jobs_at h a of
        None \<Rightarrow> None
      | Some j \<Rightarrow>
          Some (j,
                (case Metadata j of None \<Rightarrow> None | Some m \<Rightarrow> metas_at h m),
                (case StartedAt j of None \<Rightarrow> None | Some t \<Rightarrow> times_at h t),
                (case CompletedAt j of None \<Rightarrow> None | Some t \<Rightarrow> times_at h t)))"

definition stored_view :: "InMemoryDB \<Rightarrow> heap \<Rightarrow> string \<Rightarrow> (Job \<times> Metadata option \<times> time option \<times> time option) option" where
  "stored_view db h jobID = (case jobs db jobID of None \<Rightarrow> None | Some a \<Rightarrow> deep_view h a)"

text \<open>
  What a caller can do with a pointer it holds: assign to the fields of the job
  (\<open>job.Status = ...\<close>), or to the fields of the metadata behind it (\<open>job.Metadata.Title = ...\<close>).
\<close>

definition assign_Job :: "heap \<Rightarrow> addr \<Rightarrow> (Job \<Rightarrow> Job) \<Rightarrow> heap outcome" where
  "assign_Job h a f =
     (case jobs_at h a of
        None \<Rightarrow> Panics nil_dereference
      | Some j \<Rightarrow> Returns (h\<lparr> jobs_at := (jobs_at h)(a \<mapsto> f j) \<rparr>))"

definition assign_Metadata :: "heap \<Rightarrow> addr \<Rightarrow> (Metadata \<Rightarrow> Metadata) \<Rightarrow> heap outcome" where
  "assign_Metadata h a f =
     (case jobs_at h a of
        None \<Rightarrow> Panics nil_dereference
      | Some j \<Rightarrow>
          (case Metadata j of
             None \<Rightarrow> Panics nil_dereference
           | Some m \<Rightarrow>
               (case metas_at h m of
                  None \<Rightarrow> Panics nil_dereference
                | Some md \<Rightarrow> Returns (h\<lparr> metas_at := (metas_at h)(m \<mapsto> f md) \<rparr>))))"

section \<open>The durable job store (shared/db\_redis.go)\<close>

text \<open>
  \<open>DeleteJob\<close> sends \<open>DEL job:<id>\<close> and \<open>ZREM jobs <id>\<close> in one transaction and returns the
  error of \<open>Exec\<close>: the failure of the round trip, or the first command that the server
  answered with an error.  The server runs both commands either way.
\<close>

definition jobKey :: "string \<Rightarrow> string" where
  "jobKey i = ''job:'' @ i"

definition RedisDB_DeleteJob :: "Net \<Rightarrow> time \<Rightarrow> string \<Rightarrow> Redis \<Rightarrow> error option \<times> Redis" where
  "RedisDB_DeleteJob net now jobID srv =
     (let pipe = (\<lambda>s. let (r1, s1) = redis_DEL now (jobKey jobID) s;
                          (r2, s2) = redis_ZREM now ''jobs'' jobID s1
                      in (case r1 of
                            Inl e \<Rightarrow> Inl e
                          | Inr n1 \<Rightarrow> (case r2 of Inl e \<Rightarrow> Inl e | Inr n2 \<Rightarrow> Inr [n1, n2]), s2));
          (res, srv') = roundtrip net pipe srv
      in (case res of Inl e \<Rightarrow> Some (Backend e) | Inr ns \<Rightarrow> None, srv'))"

section \<open>The volatile message queue (shared/queue.go)\<close>

text \<open>
  A buffered channel is its buffer, its capacity and whether it has been closed.  \<open>make\<close> panics
  on a negative size; closing a closed channel panics; a send on a closed channel panics.
  A receiver parked on the empty channel is not part of the state: the dispatcher's receive
  is a step of its own that can fire once the buffer holds a message.  (For a capacity of at
  least 1 this is what an observer sees of Go's hand-over; both \<open>main\<close>s use 100.)
\<close>

record 'a chan =
  buf :: "'a list"
  cap :: nat
  closed :: bool

definition make_chan :: "int \<Rightarrow> 'a chan outcome" where
  "make_chan n =
     (if n < 0 then Panics ''makechan: size out of range''
      else Returns \<lparr> buf = [], cap = nat n, closed = False \<rparr>)"

definition close_chan :: "'a chan \<Rightarrow> 'a chan outcome" where
  "close_chan c = (if closed c then Panics ''close of closed channel'' else Returns (c\<lparr> closed := True \<rparr>))"

text \<open>
  Whether a communication of a \<open>select\<close> can proceed: a send when the channel is closed (it
  proceeds by panicking) or has room; a receive when a value is buffered or the channel is
  closed.
\<close>

definition can_send :: "'a chan \<Rightarrow> bool" where
  "can_send c \<longleftrightarrow> closed c \<or> length (buf c) < cap c"

definition can_recv :: "'a chan \<Rightarrow> bool" where
  "can_recv c \<longleftrightarrow> buf c \<noteq> [] \<or> closed c"

record InMemoryQueue =
  queue :: "JobMessage chan"
  stop :: "unit chan"
  once :: bool

definition NewInMemoryQueue :: "int \<Rightarrow> InMemoryQueue outcome" where
  "NewInMemoryQueue bufferSize =
     (case make_chan bufferSize of
        Panics p \<Rightarrow> Panics p
      | Returns q \<Rightarrow> Returns \<lparr> queue = q, stop = \<lparr> buf = [], cap = 0, closed = False \<rparr>, once = False \<rparr>)"

text \<open>
  \<open>Publish\<close> is a \<open>select\<close> over a send on \<open>queue\<close>, a receive from \<open>stop\<close>, and a default.
  When several communications can proceed Go picks one of them at random; \<open>pick\<close> is that
  choice.  The default is taken only when none can proceed.
\<close>

datatype select_case = SendQueue | RecvStop

definition ready_cases :: "InMemoryQueue \<Rightarrow> select_case list" where
  "ready_cases q =
     (if can_send (queue q) then [SendQueue] else []) @ (if can_recv (stop q) then [RecvStop] else [])"

definition Publish :: "InMemoryQueue \<Rightarrow> nat \<Rightarrow> JobMessage \<Rightarrow> (error option \<times> InMemoryQueue) outcome" where
  "Publish q pick message =
     (let ready = ready_cases q
      in if ready = [] then Returns (Some (QueueFull (JobID message)), q)
         else (case ready ! (pick mod length ready) of
                 SendQueue \<Rightarrow>
                   if closed (queue q) then Panics ''send on closed channel''
                   else Returns (None, q\<lparr> queue := (queue q)\<lparr> buf := buf (queue q) @ [message] \<rparr> \<rparr>)
               | RecvStop \<Rightarrow> Returns (Some QueueClosed, q)))"

definition Consume :: "InMemoryQueue \<Rightarrow> JobMessage chan \<times> error option" where
  "Consume q = (queue q, None)"

definition Close :: "InMemoryQueue \<Rightarrow> InMemoryQueue outcome" where
  "Close q =
     (if once q then Returns q
      else (case close_chan (stop q) of
              Panics p \<Rightarrow> Panics p
            | Returns s \<Rightarrow>
                (case close_chan (queue q) of
                   Panics p \<Rightarrow> Panics p
                 | Returns c \<Rightarrow> Returns (q\<lparr> queue := c, stop := s, once := True \<rparr>))))"

text \<open>\<open>publish_all\<close>: publishing a list of messages one after the other, no consumer in between.\<close>

fun publish_all :: "InMemoryQueue \<Rightarrow> nat \<Rightarrow> JobMessage list \<Rightarrow> (error option list \<times> InMemoryQueue) outcome" where
  "publish_all q pick [] = Returns ([], q)"
| "publish_all q pick (m # ms) =
     (case Publish q pick m of
        Panics p \<Rightarrow> Panics p
      | Returns (e, q') \<Rightarrow>
          (case publish_all q' pick ms of
             Panics p \<Rightarrow> Panics p
           | Returns (es, q'') \<Rightarrow> Returns (e # es, q'')))"

section \<open>The processes: submission (api-gateway/main.go) and execution (worker/main.go)\<close>

text \<open>
  Both programs keep their collaborators in package variables \<open>cfg\<close>, \<open>db\<close>, \<open>mq\<close>.  The sources
  note that gateway and worker must share one store and one queue for the system to work, and
  that is how the model has it: one \<open>World\<close> with the configuration, the store, the queue and
  the heap.  A handler returns its response (or its panic), the world it leaves behind, and
  the calls it made to its collaborators, in order; a call records the id and the status of
  the job it was given and the error it returned.
\<close>

record World =
  cfg :: Config
  db :: InMemoryDB
  mq :: InMemoryQueue
  hp :: heap

datatype call =
    CallAllow string bool
  | CallCreateJob string JobStatus "error option"
  | CallPublish string "error option"
  | CallUpdateJob string JobStatus "error option"

datatype Body = NoBody | Text string | Object "(string \<times> string) list"

record Response =
  StatusCode :: nat
  Body :: Body

record HTTPRequest =
  Method :: string
  BodyJSON :: "Request option"

text \<open>
  \<open>BodyJSON\<close> is what \<open>json.NewDecoder(r.Body).Decode(&req)\<close> yields (\<open>None\<close>: an error).
  \<open>http.Error\<close> writes the message and a newline.  CORS headers are not modelled.
\<close>

definition http_Error :: "string \<Rightarrow> nat \<Rightarrow> Response" where
  "http_Error msg code' = \<lparr> StatusCode = code', Body = Text (msg @ [CHR 0x0A]) \<rparr>"

definition handleExtract ::
  "World \<Rightarrow> HTTPRequest \<Rightarrow> string \<Rightarrow> time \<Rightarrow> nat \<Rightarrow> Response outcome \<times> World \<times> call list" where
  "handleExtract w r jobID now pick =
     (if Method r = ''OPTIONS'' then (Returns \<lparr> StatusCode = 200, Body = NoBody \<rparr>, w, [])
      else if Method r \<noteq> ''POST''
      then (Returns (http_Error ''Invalid request method'' 405), w, [])
      else (case BodyJSON r of
              None \<Rightarrow> (Returns (http_Error ''Invalid JSON'' 400), w, [])
            | Some req \<Rightarrow>
                if URL req = [] then (Returns (http_Error ''Missing YouTube URL'' 400), w, [])
                else
                  (let (job, h1) = new_Job (hp w)
                         \<lparr> ID = jobID, OriginalURL = URL req, Status = JobStatusPending,
                           Metadata = None, DownloadEndpoint = [], Error = [], CreatedAt = now,
                           StartedAt = None, CompletedAt = None, FilePath = [] \<rparr>
                   in case CreateJob (db w) h1 job of
                        Panics p \<Rightarrow> (Panics p, w\<lparr> hp := h1 \<rparr>, [])
                      | Returns (Some err, db1) \<Rightarrow>
                          (Returns (http_Error ''Failed to initialize job'' 500),
                           w\<lparr> db := db1, hp := h1 \<rparr>,
                           [CallCreateJob jobID JobStatusPending (Some err)])
                      | Returns (None, db1) \<Rightarrow>
                          (case Publish (mq w) pick \<lparr> JobID = jobID, JobMessage.OriginalURL = URL req \<rparr> of
                             Panics p \<Rightarrow>
                               (Panics p, w\<lparr> db := db1, hp := h1 \<rparr>,
                                [CallCreateJob jobID JobStatusPending None])
                           | Returns (Some err, mq1) \<Rightarrow>
                               (case assign_Job h1 job
                                       (\<lambda>j. j\<lparr> Status := JobStatusFailed,
                                                Error := ''Failed to queue job: '' @ error_text err \<rparr>) of
                                  Panics p \<Rightarrow>
                                    (Panics p, w\<lparr> db := db1, mq := mq1, hp := h1 \<rparr>,
                                     [CallCreateJob jobID JobStatusPending None,
                                      CallPublish jobID (Some err)])
                                | Returns h2 \<Rightarrow>
                                    (case UpdateJob db1 h2 job of
                                       Panics p \<Rightarrow>
                                         (Panics p, w\<lparr> db := db1, mq := mq1, hp := h2 \<rparr>,
                                          [CallCreateJob jobID JobStatusPending None,
                                           CallPublish jobID (Some err)])
                                     | Returns (uerr, db2) \<Rightarrow>
                                         (Returns (http_Error ''Failed to submit job to processing queue'' 500),
                                          w\<lparr> db := db2, mq := mq1, hp := h2 \<rparr>,
                                          [CallCreateJob jobID JobStatusPending None,
                                           CallPublish jobID (Some err),
                                           CallUpdateJob jobID JobStatusFailed uerr])))
                           | Returns (None, mq1) \<Rightarrow>
                               (Returns \<lparr> StatusCode = 200,
                                          Body = Object
                                            [(''instructions'', ''A worker service will process this job and update its status. Polling /status/{job_id} is recommended.''),
                                             (''job_id'', jobID),
                                             (''message'', ''Audio extraction started. Check status at /status/'' @ jobID),
                                             (''status'', status_text JobStatusPending)] \<rparr>,
                                w\<lparr> db := db1, mq := mq1, hp := h1 \<rparr>,
                                [CallCreateJob jobID JobStatusPending None, CallPublish jobID None])))))"

text \<open>
  The worker.  \<open>getAudioStream\<close> and \<open>convertToMP3\<close> run external programs; what they return is
  an argument: \<open>yt\<close> is the error text or the stream URL with the metadata, \<open>ff\<close> the error text
  or the path of the file.  \<open>update_call\<close> is \<open>db.UpdateJob(job)\<close> together with its entry for
  the list of calls.

  \<open>processJob\<close> is cut where the external programs run: \<open>processJob_begin\<close> is everything up to
  the first \<open>UpdateJob\<close>, \<open>processJob_end\<close> everything after \<open>getAudioStream\<close> was called.
\<close>

definition update_call :: "World \<Rightarrow> addr \<Rightarrow> unit outcome \<times> World \<times> call list" where
  "update_call w job =
     (case UpdateJob (db w) (hp w) job of
        Panics p \<Rightarrow> (Panics p, w, [])
      | Returns (err, db1) \<Rightarrow>
          (case jobs_at (hp w) job of
             None \<Rightarrow> (Panics nil_dereference, w, [])
           | Some j \<Rightarrow> (Returns (), w\<lparr> db := db1 \<rparr>, [CallUpdateJob (ID j) (Status j) err])))"

definition handleJobFailure :: "World \<Rightarrow> addr \<Rightarrow> string \<Rightarrow> time \<Rightarrow> unit outcome \<times> World \<times> call list" where
  "handleJobFailure w job errMsg failedNow =
     (let (t, h1) = new_Time (hp w) failedNow
      in case assign_Job h1 job
                (\<lambda>j. j\<lparr> Status := JobStatusFailed, Error := errMsg, CompletedAt := Some t \<rparr>) of
           Panics p \<Rightarrow> (Panics p, w\<lparr> hp := h1 \<rparr>, [])
         | Returns h2 \<Rightarrow> update_call (w\<lparr> hp := h2 \<rparr>) job)"

definition processJob_begin ::
  "World \<Rightarrow> JobMessage \<Rightarrow> time \<Rightarrow> addr option outcome \<times> World \<times> call list" where
  "processJob_begin w jobMessage now =
     (case GetJob (db w) (hp w) (JobID jobMessage) of
        Panics p \<Rightarrow> (Panics p, w, [])
      | Returns (Inl err, h0) \<Rightarrow> (Returns None, w\<lparr> hp := h0 \<rparr>, [])
      | Returns (Inr job, h0) \<Rightarrow>
          (let (t, h1) = new_Time h0 now
           in case assign_Job h1 job
                     (\<lambda>j. j\<lparr> Status := JobStatusProcessing, StartedAt := Some t \<rparr>) of
                Panics p \<Rightarrow> (Panics p, w\<lparr> hp := h1 \<rparr>, [])
              | Returns h2 \<Rightarrow>
                  (case update_call (w\<lparr> hp := h2 \<rparr>) job of
                     (Panics p, w', calls) \<Rightarrow> (Panics p, w', calls)
                   | (Returns u, w', calls) \<Rightarrow> (Returns (Some job), w', calls))))"

definition processJob_end ::
  "World \<Rightarrow> JobMessage \<Rightarrow> addr \<Rightarrow> string + string \<times> Metadata \<Rightarrow> string + string \<Rightarrow> time
     \<Rightarrow> unit outcome \<times> World \<times> call list" where
  "processJob_end w jobMessage job yt ff now =
     (case yt of
        Inl ytDlpErr \<Rightarrow> handleJobFailure w job (''yt-dlp failed: '' @ ytDlpErr) now
      | Inr (audioURL, metadata) \<Rightarrow>
          (let (meta, h1) = new_Metadata (hp w) metadata
           in case ff of
                Inl ffmpegErr \<Rightarrow>
                  handleJobFailure (w\<lparr> hp := h1 \<rparr>) job (''ffmpeg failed: '' @ ffmpegErr) now
              | Inr filePath \<Rightarrow>
                  (let (completedNow, h2) = new_Time h1 now
                   in case assign_Job h2 job
                             (\<lambda>j. j\<lparr> Status := JobStatusCompleted, Metadata := Some meta,
                                      FilePath := filePath,
                                      DownloadEndpoint :=
                                        ''http://localhost:'' @ APIGatewayPort (cfg w)
                                          @ ''/download/'' @ JobID jobMessage,
                                      CompletedAt := Some completedNow \<rparr>) of
                        Panics p \<Rightarrow> (Panics p, w\<lparr> hp := h2 \<rparr>, [])
                      | Returns h3 \<Rightarrow> update_call (w\<lparr> hp := h3 \<rparr>) job)))"

definition processJob ::
  "World \<Rightarrow> JobMessage \<Rightarrow> time \<Rightarrow> string + string \<times> Metadata \<Rightarrow> string + string \<Rightarrow> time
     \<Rightarrow> unit outcome \<times> World \<times> call list" where
  "processJob w jobMessage now yt ff now' =
     (case processJob_begin w jobMessage now of
        (Panics p, w1, calls) \<Rightarrow> (Panics p, w1, calls)
      | (Returns None, w1, calls) \<Rightarrow> (Returns (), w1, calls)
      | (Returns (Some job), w1, calls) \<Rightarrow>
          (case processJob_end w1 jobMessage job yt ff now' of
             (res, w2, calls') \<Rightarrow> (res, w2, calls @ calls')))"

text \<open>
  The statuses written to the store for one job, in order: the status of every \<open>CreateJob\<close>
  and \<open>UpdateJob\<close> for that id that returned no error.
\<close>

fun written :: "string \<Rightarrow> call list \<Rightarrow> JobStatus list" where
  "written i [] = []"
| "written i (CallCreateJob i' st None # calls) = (if i' = i then st # written i calls else written i calls)"
| "written i (CallUpdateJob i' st None # calls) = (if i' = i then st # written i calls else written i calls)"
| "written i (c # calls) = written i calls"

text \<open>
  The life cycle of the spec, \<open>Pending, Processing, {Completed | Failed}\<close>: the sequences of
  statuses that are a prefix of it.
\<close>

definition lifecycle_prefix :: "JobStatus list \<Rightarrow> bool" where
  "lifecycle_prefix sts \<longleftrightarrow>
     sts \<in> set [[], [JobStatusPending], [JobStatusPending, JobStatusProcessing],
                [JobStatusPending, JobStatusProcessing, JobStatusCompleted],
                [JobStatusPending, JobStatusProcessing, JobStatusFailed]]"

text \<open>
  Whether, in a list of calls, every \<open>CreateJob\<close> comes after an \<open>Allow\<close> that returned allowed
  (\<open>seen\<close>: such an \<open>Allow\<close> has already been passed).
\<close>

fun allow_before_create :: "bool \<Rightarrow> call list \<Rightarrow> bool" where
  "allow_before_create seen [] = True"
| "allow_before_create seen (CallAllow ip ok # calls) = allow_before_create (seen \<or> ok) calls"
| "allow_before_create seen (CallCreateJob i st e # calls) = (seen \<and> allow_before_create seen calls)"
| "allow_before_create seen (c # calls) = allow_before_create seen calls"

fun is_Allow :: "call \<Rightarrow> bool" where
  "is_Allow (CallAllow ip ok) = True"
| "is_Allow c = False"

fun is_CreateJob :: "call \<Rightarrow> bool" where
  "is_CreateJob (CallCreateJob i st e) = True"
| "is_CreateJob c = False"

section \<open>The system: gateway, queue, dispatcher and executions\<close>

text \<open>
  The worker's \<open>main\<close> makes the semaphore \<open>workerLimiter\<close> with \<open>cfg.MaxWorkers\<close> slots and starts
  \<open>startQueueConsumer\<close>.  The dispatch loop receives a message from the queue, sends a token
  into \<open>workerLimiter\<close> (it waits while the channel is full) and starts a goroutine, which runs
  \<open>processJob\<close> and, when that has returned, takes a token out of \<open>workerLimiter\<close>.

  A state of the system is the world, the semaphore, the message the dispatch loop has
  received and not yet started, the goroutines with where each stands, and the calls made to
  the store and the queue so far.  One step is one of: the gateway serves a submission, the
  queue is closed, the loop receives, the loop acquires a slot and starts a goroutine, a
  goroutine runs \<open>processJob\<close> up to the external programs, a goroutine finishes \<open>processJob\<close>, a
  goroutine releases its slot.  Steps of different goroutines and of the gateway interleave
  in any order.  The admin handlers and the status handler write no status and are left out.
\<close>

datatype phase = Starting | Executing addr | Releasing

record System =
  world :: World
  workerLimiter :: "unit chan"
  received :: "JobMessage option"
  goroutines :: "(JobMessage \<times> phase) list"
  journal :: "call list"

definition start_system :: "Config \<Rightarrow> System outcome" where
  "start_system c =
     (case NewInMemoryQueue 100 of
        Panics p \<Rightarrow> Panics p
      | Returns q \<Rightarrow>
          (case make_chan (MaxWorkers c) of
             Panics p \<Rightarrow> Panics p
           | Returns limiter \<Rightarrow>
               Returns \<lparr> world = \<lparr> cfg = c\<lparr> WorkerPort := (if WorkerPort c = [] then DefaultWorkerPort
                                                              else WorkerPort c) \<rparr>,
                                     db = NewInMemoryDB, mq = q, hp = heap_empty \<rparr>,
                         workerLimiter = limiter, received = None, goroutines = [],
                         journal = [] \<rparr>))"

inductive step :: "System \<Rightarrow> System \<Rightarrow> bool" where
  submit:
    "handleExtract (world s) r jobID now pick = (resp, w', calls)
     \<Longrightarrow> step s (s\<lparr> world := w', journal := journal s @ calls \<rparr>)"
| shutdown:
    "Close (mq (world s)) = Returns q'
     \<Longrightarrow> step s (s\<lparr> world := (world s)\<lparr> mq := q' \<rparr> \<rparr>)"
| receive:
    "received s = None \<Longrightarrow> buf (queue (mq (world s))) = m # ms
     \<Longrightarrow> step s (s\<lparr> world := (world s)\<lparr> mq := (mq (world s))\<lparr> queue := (queue (mq (world s)))\<lparr> buf := ms \<rparr> \<rparr> \<rparr>,
                    received := Some m \<rparr>)"
| acquire:
    "received s = Some m \<Longrightarrow> length (buf (workerLimiter s)) < cap (workerLimiter s)
     \<Longrightarrow> step s (s\<lparr> workerLimiter := (workerLimiter s)\<lparr> buf := buf (workerLimiter s) @ [()] \<rparr>,
                    received := None,
                    goroutines := goroutines s @ [(m, Starting)] \<rparr>)"
| begin_job:
    "i < length (goroutines s) \<Longrightarrow> goroutines s ! i = (m, Starting)
     \<Longrightarrow> processJob_begin (world s) m now = (Returns found, w', calls)
     \<Longrightarrow> step s (s\<lparr> world := w',
                    goroutines := (goroutines s)[i := (m, case found of None \<Rightarrow> Releasing | Some job \<Rightarrow> Executing job)],
                    journal := journal s @ calls \<rparr>)"
| finish_job:
    "i < length (goroutines s) \<Longrightarrow> goroutines s ! i = (m, Executing job)
     \<Longrightarrow> processJob_end (world s) m job yt ff now = (Returns u, w', calls)
     \<Longrightarrow> step s (s\<lparr> world := w',
                    goroutines := (goroutines s)[i := (m, Releasing)],
                    journal := journal s @ calls \<rparr>)"
| release:
    "i < length (goroutines s) \<Longrightarrow> goroutines s ! i = (m, Releasing)
     \<Longrightarrow> buf (workerLimiter s) = tok # toks
     \<Longrightarrow> step s (s\<lparr> workerLimiter := (workerLimiter s)\<lparr> buf := toks \<rparr>,
                    goroutines := take i (goroutines s) @ drop (Suc i) (goroutines s) \<rparr>)"

text \<open>The executions in flight: the goroutines that have not yet released their slot.\<close>

definition in_flight :: "System \<Rightarrow> nat" where
  "in_flight s = length (goroutines s)"

text \<open>
  The life cycle as the code has it: the spec's, and \<open>Pending, Failed\<close> for a job the gateway
  could not put on the queue.
\<close>

definition lifecycle :: "JobStatus list \<Rightarrow> bool" where
  "lifecycle sts \<longleftrightarrow> lifecycle_prefix sts \<or> sts = [JobStatusPending, JobStatusFailed]"

text \<open>
  A store with one completed job \<open>j1\<close> whose \<open>Metadata\<close> points to a \<open>Metadata\<close> titled Song,
  and a world with an empty store and a full queue of capacity 1.
\<close>

definition song_heap :: heap where
  "song_heap =
     \<lparr> jobs_at = Map.empty(1 \<mapsto> \<lparr> ID = ''j1'', OriginalURL = ''https://youtu.be/x'',
                                  Status = JobStatusCompleted, Metadata = Some 0,
                                  DownloadEndpoint = ''http://localhost:8080/download/j1'',
                                  Error = [], CreatedAt = 0, StartedAt = None,
                                  CompletedAt = None, FilePath = ''output/j1.mp3'' \<rparr>),
       metas_at = Map.empty(0 \<mapsto> \<lparr> Title = ''Song'', Uploader = ''Band'', Duration = 0,
                                   AudioURL = ''https://cdn/x'', Ext = ''webm'', Abr = 128 \<rparr>),
       times_at = Map.empty,
       next_addr = 2 \<rparr>"

definition song_db :: InMemoryDB where
  "song_db = \<lparr> jobs = Map.empty(''j1'' \<mapsto> 1) \<rparr>"

definition stored_title :: "InMemoryDB \<Rightarrow> heap \<Rightarrow> string \<Rightarrow> string option" where
  "stored_title d h jobID =
     (case stored_view d h jobID of
        Some (j, Some m, ts) \<Rightarrow> Some (Title m)
      | _ \<Rightarrow> None)"

definition full_queue_world :: World where
  "full_queue_world =
     \<lparr> cfg = quota_cfg 300, db = NewInMemoryDB,
       mq = \<lparr> queue = \<lparr> buf = [\<lparr> JobID = ''j0'', JobMessage.OriginalURL = ''https://youtu.be/w'' \<rparr>],
                         cap = 1, closed = False \<rparr>,
              stop = \<lparr> buf = [], cap = 0, closed = False \<rparr>, once = False \<rparr>,
       hp = heap_empty \<rparr>"

definition fresh_world :: World where
  "fresh_world =
     \<lparr> cfg = (quota_cfg 300)\<lparr> WorkerPort := DefaultWorkerPort \<rparr>, db = NewInMemoryDB,
       mq = \<lparr> queue = \<lparr> buf = [], cap = 100, closed = False \<rparr>,
              stop = \<lparr> buf = [], cap = 0, closed = False \<rparr>, once = False \<rparr>,
       hp = heap_empty \<rparr>"

text \<open>
  What the proofs about the system keep track of.  The semaphore: as many tokens in
  \<open>workerLimiter\<close> as there are goroutines, at most its capacity, which is \<open>MaxWorkers\<close>.  The
  heap: every job object lies below the next free address.  The jobs on their way: the ids
  of the messages in the queue, of the message the loop holds, and of the goroutines that
  have not finished \<open>processJob\<close>.  The invariant: the store's pointers lead to jobs with the
  right id; a job is in the store iff a status was written for it; every job's statuses
  follow the life cycle; no id is on its way twice; a job waiting to be processed has status
  \<open>Pending\<close> written and nothing else; a job being executed has \<open>Pending, Processing\<close>, and its
  goroutine's pointer leads to a job with its id.
\<close>

definition slots_inv :: "Config \<Rightarrow> System \<Rightarrow> bool" where
  "slots_inv c s \<longleftrightarrow>
     length (goroutines s) = length (buf (workerLimiter s))
     \<and> length (buf (workerLimiter s)) \<le> cap (workerLimiter s)
     \<and> int (cap (workerLimiter s)) = MaxWorkers c"

definition executing :: "System \<Rightarrow> nat" where
  "executing s = length (filter (\<lambda>g. snd g \<noteq> Releasing) (goroutines s))"

definition heap_wf :: "heap \<Rightarrow> bool" where
  "heap_wf h \<longleftrightarrow> (\<forall>a j. jobs_at h a = Some j \<longrightarrow> a < next_addr h)"

definition heap_grows :: "heap \<Rightarrow> heap \<Rightarrow> bool" where
  "heap_grows h h' \<longleftrightarrow>
     next_addr h \<le> next_addr h'
     \<and> (\<forall>a. a < next_addr h \<longrightarrow> jobs_at h' a = jobs_at h a)
     \<and> (\<forall>a j. jobs_at h' a = Some j \<longrightarrow> a < next_addr h')"

definition inflight_ids :: "System \<Rightarrow> string list" where
  "inflight_ids s =
     map JobID (buf (queue (mq (world s))))
     @ (case received s of None \<Rightarrow> [] | Some m \<Rightarrow> [JobID m])
     @ map (\<lambda>g. JobID (fst g)) (filter (\<lambda>g. snd g \<noteq> Releasing) (goroutines s))"

definition sys_inv :: "System \<Rightarrow> bool" where
  "sys_inv s \<longleftrightarrow>
     heap_wf (hp (world s))
     \<and> (\<forall>i a. jobs (db (world s)) i = Some a \<longrightarrow> (\<exists>j. jobs_at (hp (world s)) a = Some j \<and> ID j = i))
     \<and> (\<forall>i. (jobs (db (world s)) i = None) = (written i (journal s) = []))
     \<and> (\<forall>i. lifecycle (written i (journal s)))
     \<and> distinct (inflight_ids s)
     \<and> (\<forall>m. m \<in> set (buf (queue (mq (world s)))) \<or> received s = Some m \<or> (m, Starting) \<in> set (goroutines s)
            \<longrightarrow> written (JobID m) (journal s) = [JobStatusPending])
     \<and> (\<forall>m a. (m, Executing a) \<in> set (goroutines s)
            \<longrightarrow> written (JobID m) (journal s) = [JobStatusPending, JobStatusProcessing]
                \<and> (\<exists>j. jobs_at (hp (world s)) a = Some j \<and> ID j = JobID m))"

text \<open>
  The calls made for one job, in order: the \<open>CreateJob\<close> that created it and every \<open>Publish\<close>
  and \<open>UpdateJob\<close> for its id.  A \<open>CreateJob\<close> that returned an error is left out: it belongs
  to a submission that drew the id of a job that exists, and that submission ends there.

  \<open>Publish\<close> is called by \<open>handleExtract\<close> only.  A job that is processed has the calls of
  \<open>processed_path\<close>, or the first of them: it is created, published, marked \<open>Processing\<close> by
  \<open>processJob\<close> and then \<open>Completed\<close> or \<open>Failed\<close>.  A job that \<open>handleExtract\<close> could not put
  on the queue has the calls of \<open>rejected_path\<close>: it is created, \<open>Publish\<close> returns \<open>QueueFull\<close>
  or \<open>QueueClosed\<close>, and \<open>handleExtract\<close> marks it \<open>Failed\<close>.

  \<open>messages\<close> are the messages the worker has or will get: those in the queue, the one the
  dispatch loop holds, and those of the goroutines.  \<open>calls_inv\<close> is what the proofs keep track
  of: every job is on one of the two paths, and every such message was published.
\<close>

fun job_calls :: "string \<Rightarrow> call list \<Rightarrow> call list" where
  "job_calls i [] = []"
| "job_calls i (CallAllow ip ok # calls) = job_calls i calls"
| "job_calls i (CallCreateJob i' st (Some e) # calls) = job_calls i calls"
| "job_calls i (CallCreateJob i' st None # calls) =
     (if i' = i then CallCreateJob i' st None # job_calls i calls else job_calls i calls)"
| "job_calls i (CallPublish i' e # calls) =
     (if i' = i then CallPublish i' e # job_calls i calls else job_calls i calls)"
| "job_calls i (CallUpdateJob i' st e # calls) =
     (if i' = i then CallUpdateJob i' st e # job_calls i calls else job_calls i calls)"

definition processed_path :: "string \<Rightarrow> call list list" where
  "processed_path i =
     [[],
      [CallCreateJob i JobStatusPending None],
      [CallCreateJob i JobStatusPending None, CallPublish i None],
      [CallCreateJob i JobStatusPending None, CallPublish i None,
       CallUpdateJob i JobStatusProcessing None],
      [CallCreateJob i JobStatusPending None, CallPublish i None,
       CallUpdateJob i JobStatusProcessing None, CallUpdateJob i JobStatusCompleted None],
      [CallCreateJob i JobStatusPending None, CallPublish i None,
       CallUpdateJob i JobStatusProcessing None, CallUpdateJob i JobStatusFailed None]]"

definition rejected_path :: "string \<Rightarrow> call list list" where
  "rejected_path i =
     [[CallCreateJob i JobStatusPending None, CallPublish i (Some (QueueFull i)),
       CallUpdateJob i JobStatusFailed None],
      [CallCreateJob i JobStatusPending None, CallPublish i (Some QueueClosed),
       CallUpdateJob i JobStatusFailed None]]"

definition job_path :: "string \<Rightarrow> call list \<Rightarrow> bool" where
  "job_path i cs \<longleftrightarrow> cs \<in> set (processed_path i) \<or> cs \<in> set (rejected_path i)"

definition messages :: "System \<Rightarrow> JobMessage list" where
  "messages s =
     buf (queue (mq (world s)))
     @ (case received s of None \<Rightarrow> [] | Some m \<Rightarrow> [m])
     @ map fst (goroutines s)"

definition calls_inv :: "System \<Rightarrow> bool" where
  "calls_inv s \<longleftrightarrow>
     (\<forall>i. job_path i (job_calls i (journal s)))
     \<and> (\<forall>m \<in> set (messages s). CallPublish (JobID m) None \<in> set (journal s))"

text \<open>
  A run of the system, used to put the theorems to work: job \<open>j1\<close> is submitted, received,
  started, and completed (addresses 0 to 4 are the job, its copy, and the two times and the
  metadata that \<open>processJob\<close> allocates).
\<close>

definition run_request :: HTTPRequest where
  "run_request = \<lparr> Method = ''POST'', BodyJSON = Some \<lparr> URL = ''https://youtu.be/x'' \<rparr> \<rparr>"

definition run_message :: JobMessage where
  "run_message = \<lparr> JobID = ''j1'', JobMessage.OriginalURL = ''https://youtu.be/x'' \<rparr>"

definition run_metadata :: Metadata where
  "run_metadata = \<lparr> Title = ''Song'', Uploader = ''Band'', Duration = 0,
                     AudioURL = ''https://cdn/x'', Ext = ''webm'', Abr = 128 \<rparr>"

definition run_job :: Job where
  "run_job = \<lparr> ID = ''j1'', OriginalURL = ''https://youtu.be/x'', Status = JobStatusPending,
               Metadata = None, DownloadEndpoint = [], Error = [], CreatedAt = 0,
               StartedAt = None, CompletedAt = None, FilePath = [] \<rparr>"

definition run_w1 :: World where
  "run_w1 = fresh_world
     \<lparr> db := \<lparr> jobs = Map.empty(''j1'' \<mapsto> 0) \<rparr>,
       mq := (mq fresh_world)\<lparr> queue := \<lparr> buf = [run_message], cap = 100, closed = False \<rparr> \<rparr>,
       hp := \<lparr> jobs_at = Map.empty(0 \<mapsto> run_job), metas_at = Map.empty, times_at = Map.empty,
               next_addr = 1 \<rparr> \<rparr>"

definition run_w2 :: World where
  "run_w2 = run_w1\<lparr> mq := mq fresh_world \<rparr>"

definition run_w4 :: World where
  "run_w4 = run_w2
     \<lparr> db := \<lparr> jobs = Map.empty(''j1'' \<mapsto> 1) \<rparr>,
       hp := \<lparr> jobs_at = Map.empty(0 \<mapsto> run_job,
                                   1 \<mapsto> run_job\<lparr> Status := JobStatusProcessing, StartedAt := Some 2 \<rparr>),
               metas_at = Map.empty, times_at = Map.empty(2 \<mapsto> 1), next_addr = 3 \<rparr> \<rparr>"

definition run_w5 :: World where
  "run_w5 = run_w4
     \<lparr> hp := \<lparr> jobs_at = Map.empty(0 \<mapsto> run_job,
                                   1 \<mapsto> run_job\<lparr> Status := JobStatusCompleted, StartedAt := Some 2,
                                                  Metadata := Some 3, FilePath := ''output/j1.mp3'',
                                                  DownloadEndpoint := ''http://localhost:/download/j1'',
                                                  CompletedAt := Some 4 \<rparr>),
               metas_at = Map.empty(3 \<mapsto> run_metadata), times_at = Map.empty(2 \<mapsto> 1, 4 \<mapsto> 2),
               next_addr = 5 \<rparr> \<rparr>"

definition run_s0 :: System where
  "run_s0 = \<lparr> world = fresh_world, workerLimiter = \<lparr> buf = [], cap = 3, closed = False \<rparr>,
              received = None, goroutines = [], journal = [] \<rparr>"

definition run_s1 :: System where
  "run_s1 = run_s0\<lparr> world := run_w1,
                    journal := [CallCreateJob ''j1'' JobStatusPending None, CallPublish ''j1'' None] \<rparr>"

definition run_s2 :: System where
  "run_s2 = run_s1\<lparr> world := run_w2, received := Some run_message \<rparr>"

definition run_s3 :: System where
  "run_s3 = run_s2\<lparr> workerLimiter := \<lparr> buf = [()], cap = 3, closed = False \<rparr>, received := None,
                    goroutines := [(run_message, Starting)] \<rparr>"

definition run_s4 :: System where
  "run_s4 = run_s3\<lparr> world := run_w4, goroutines := [(run_message, Executing 1)],
                    journal := [CallCreateJob ''j1'' JobStatusPending None, CallPublish ''j1'' None,
                                CallUpdateJob ''j1'' JobStatusProcessing None] \<rparr>"

definition run_s5 :: System where
  "run_s5 = run_s4\<lparr> world := run_w5, goroutines := [(run_message, Releasing)],
                    journal := [CallCreateJob ''j1'' JobStatusPending None, CallPublish ''j1'' None,
                                CallUpdateJob ''j1'' JobStatusProcessing None,
                                CallUpdateJob ''j1'' JobStatusCompleted None] \<rparr>"

text \<open>
  A second run: the queue is closed, then \<open>j2\<close> is submitted and the \<open>select\<close> of \<open>Publish\<close>
  takes the branch of the stop channel.
\<close>

definition run_closed :: System where
  "run_closed = run_s0\<lparr> world := fresh_world
     \<lparr> mq := \<lparr> queue = \<lparr> buf = [], cap = 100, closed = True \<rparr>,
               stop = \<lparr> buf = [], cap = 0, closed = True \<rparr>, once = True \<rparr> \<rparr> \<rparr>"

definition run_rejected :: System where
  "run_rejected = run_closed
     \<lparr> world := fst (snd (handleExtract (world run_closed) run_request ''j2'' 0 1)),
       journal := snd (snd (handleExtract (world run_closed) run_request ''j2'' 0 1)) \<rparr>"

text \<open>
  A gateway started with \<open>RATE_LIMIT_RPM=2\<close>, and three submissions within three seconds.
  \<open>serve\<close> has \<open>handleExtract\<close> answer a list of requests one after the other.
\<close>

definition throttled_env :: environ where
  "throttled_env = (\<lambda>k. if k = ''RATE_LIMIT_RPM'' then ''2'' else [])"

definition throttled_world :: World where
  "throttled_world = fresh_world\<lparr> cfg := LoadConfig id throttled_env \<rparr>"

fun serve ::
  "World \<Rightarrow> (HTTPRequest \<times> string \<times> time \<times> nat) list \<Rightarrow> Response outcome list \<times> World \<times> call list" where
  "serve w [] = ([], w, [])"
| "serve w ((r, jobID, now, pick) # rest) =
     (let (resp, w1, calls) = handleExtract w r jobID now pick;
          (resps, w2, calls') = serve w1 rest
      in (resp # resps, w2, calls @ calls'))"

definition three_posts :: "(HTTPRequest \<times> string \<times> time \<times> nat) list" where
  "three_posts = [(run_request, ''j1'', 0, 0), (run_request, ''j2'', Second, 0),
                  (run_request, ''j3'', 2 * Second, 0)]"

chapter \<open>Verification\<close>

section \<open>Configuration\<close>

lemma Atoi_empty: "Atoi [] = Inl ErrSyntax"
  by (simp add: Atoi_def)

lemma LoadConfig_MaxWorkers:
  "MaxWorkers (LoadConfig trim getenv) =
     (case Atoi (getenv ''MAX_WORKERS'') of Inl e \<Rightarrow> 3 | Inr n \<Rightarrow> if n \<le> 0 then 3 else n)"
  by (simp add: LoadConfig_def Let_def DefaultMaxWorkers_def split: sum.splits)

lemma LoadConfig_RateLimitRPM:
  "RateLimitRPM (LoadConfig trim getenv) =
     (case Atoi (getenv ''RATE_LIMIT_RPM'') of Inl e \<Rightarrow> 300 | Inr n \<Rightarrow> if n \<le> 0 then 300 else n)"
  by (simp add: LoadConfig_def Let_def DefaultRateLimitRPM_def Atoi_empty split: sum.splits)

text \<open>
  Claim C10.  Whatever the environment holds, \<open>LoadConfig\<close> returns a configuration with
  \<open>MaxWorkers \<ge> 1\<close> and \<open>RateLimitRPM \<ge> 1\<close>.  When \<open>MAX_WORKERS\<close> is unset, is not a number
  (\<open>Atoi\<close> fails) or is zero or negative, \<open>MaxWorkers\<close> is the default 3; when \<open>RATE_LIMIT_RPM\<close>
  is unset, not a number, zero or negative, \<open>RateLimitRPM\<close> is the default 300.  Hence a quota
  \<open>\<le> 0\<close>, the value that switches the rate limiter off, cannot come out of \<open>LoadConfig\<close>.
\<close>

theorem LoadConfig_workers_and_quota_positive:
  "1 \<le> MaxWorkers (LoadConfig trim getenv)
   \<and> 1 \<le> RateLimitRPM (LoadConfig trim getenv)
   \<and> (getenv ''MAX_WORKERS'' = [] \<or> (\<exists>e. Atoi (getenv ''MAX_WORKERS'') = Inl e)
        \<or> (\<exists>n. Atoi (getenv ''MAX_WORKERS'') = Inr n \<and> n \<le> 0)
       \<longrightarrow> MaxWorkers (LoadConfig trim getenv) = 3)
   \<and> (getenv ''RATE_LIMIT_RPM'' = [] \<or> (\<exists>e. Atoi (getenv ''RATE_LIMIT_RPM'') = Inl e)
        \<or> (\<exists>n. Atoi (getenv ''RATE_LIMIT_RPM'') = Inr n \<and> n \<le> 0)
       \<longrightarrow> RateLimitRPM (LoadConfig trim getenv) = 300)
   \<and> \<not> RateLimitRPM (LoadConfig trim getenv) \<le> 0"
proof -
  have w: "1 \<le> MaxWorkers (LoadConfig trim getenv)"
    by (simp add: LoadConfig_MaxWorkers split: sum.splits)
  have r: "1 \<le> RateLimitRPM (LoadConfig trim getenv)"
    by (simp add: LoadConfig_RateLimitRPM split: sum.splits)
  have wd: "getenv ''MAX_WORKERS'' = [] \<or> (\<exists>e. Atoi (getenv ''MAX_WORKERS'') = Inl e)
        \<or> (\<exists>n. Atoi (getenv ''MAX_WORKERS'') = Inr n \<and> n \<le> 0)
       \<longrightarrow> MaxWorkers (LoadConfig trim getenv) = 3"
    by (auto simp: LoadConfig_MaxWorkers Atoi_empty)
  have rd: "getenv ''RATE_LIMIT_RPM'' = [] \<or> (\<exists>e. Atoi (getenv ''RATE_LIMIT_RPM'') = Inl e)
        \<or> (\<exists>n. Atoi (getenv ''RATE_LIMIT_RPM'') = Inr n \<and> n \<le> 0)
       \<longrightarrow> RateLimitRPM (LoadConfig trim getenv) = 300"
    by (auto simp: LoadConfig_RateLimitRPM Atoi_empty)
  from r have "\<not> RateLimitRPM (LoadConfig trim getenv) \<le> 0" by simp
  with w r wd rd show ?thesis by blast
qed

text \<open>
  The theorem at work: \<open>MAX_WORKERS=abc\<close> (not a number) and \<open>RATE_LIMIT_RPM=-5\<close> (negative) give
  the defaults, and so does the empty environment; \<open>MAX_WORKERS=0\<close> gives 3 as well.
\<close>

theorem LoadConfig_workers_and_quota_positive_witness:
  "MaxWorkers (LoadConfig id (\<lambda>k. if k = ''MAX_WORKERS'' then ''abc''
                                   else if k = ''RATE_LIMIT_RPM'' then ''-5'' else [])) = 3
   \<and> RateLimitRPM (LoadConfig id (\<lambda>k. if k = ''MAX_WORKERS'' then ''abc''
                                   else if k = ''RATE_LIMIT_RPM'' then ''-5'' else [])) = 300
   \<and> MaxWorkers (LoadConfig id (\<lambda>k. [])) = 3
   \<and> RateLimitRPM (LoadConfig id (\<lambda>k. [])) = 300
   \<and> MaxWorkers (LoadConfig id (\<lambda>k. if k = ''MAX_WORKERS'' then ''0'' else [])) = 3"
proof -
  have a: "Atoi ''abc'' = Inl ErrSyntax"
    by (simp add: Atoi_def is_digit_def)
  have b: "Atoi ''-5'' = Inr (- 5)"
    by (simp add: Atoi_def is_digit_def)
  have c: "Atoi ''0'' = Inr 0"
    by (simp add: Atoi_def is_digit_def)
  show ?thesis
    using LoadConfig_workers_and_quota_positive
            [where trim = id and getenv = "\<lambda>k. if k = ''MAX_WORKERS'' then ''abc''
                     else if k = ''RATE_LIMIT_RPM'' then ''-5'' else []"]
          LoadConfig_workers_and_quota_positive [where trim = id and getenv = "\<lambda>k. []"]
          LoadConfig_workers_and_quota_positive
            [where trim = id and getenv = "\<lambda>k. if k = ''MAX_WORKERS'' then ''0'' else []"]
    by (simp add: a b c)
qed

section \<open>The rate limiter\<close>

subsection \<open>Single calls\<close>

lemma roundtrip_error:
  "net \<noteq> NetOk \<Longrightarrow> fst (roundtrip net cmd srv) = Inl Network"
  by (cases net) (simp_all add: roundtrip_def)

lemma quota_cfg_rpm [simp]: "RateLimitRPM (quota_cfg q) = q"
  by (simp add: quota_cfg_def)

lemma Sub_window: "Sub t u > 60 * Second \<longleftrightarrow> t - u > 60 * Second"
  by (auto simp: Sub_def Let_def Second_def maxDuration_def minDuration_def)

lemma allowInMem_reset:
  "now - inMemTTL r > 60 * Second \<Longrightarrow>
   allowInMem r ip rpm now =
     ((1 \<le> rpm, rpm - 1), r\<lparr> inMemCount := Map.empty(ip \<mapsto> 1), inMemTTL := now \<rparr>)"
  by (simp add: allowInMem_def Sub_window Let_def count_of_def)

lemma allowInMem_same_window:
  "\<not> now - inMemTTL r > 60 * Second \<Longrightarrow>
   allowInMem r ip rpm now =
     ((count_of (inMemCount r) ip + 1 \<le> rpm, rpm - (count_of (inMemCount r) ip + 1)),
      r\<lparr> inMemCount := (inMemCount r)(ip \<mapsto> count_of (inMemCount r) ip + 1) \<rparr>)"
  by (simp add: allowInMem_def Sub_window Let_def count_of_def)

lemma Allow_volatile:
  "0 < RateLimitRPM (RateLimiter.cfg r) \<Longrightarrow> redis r = None \<Longrightarrow>
   Allow r srv n1 n2 ip now =
     (fst (allowInMem r ip (RateLimitRPM (RateLimiter.cfg r)) now), snd (allowInMem r ip (RateLimitRPM (RateLimiter.cfg r)) now), srv)"
  by (simp add: Allow_def Let_def split: prod.splits)

lemma scenario_volatile:
  assumes q: "RateLimitRPM c = 2"
      and t: "0 \<le> t1" "t1 \<le> t2" "t2 \<le> t3" "t3 - t1 \<le> 60 * Second" "t4 - t1 > 60 * Second"
  shows "fst (Allow_run (NewRateLimiter c None) srv [(ip, t1), (ip, t2), (ip, t3), (ip, t4)])
         = [(True, 1), (True, 0), (False, - 1), (True, 1)]"
proof -
  let ?r0 = "NewRateLimiter c None"
  let ?r1 = "?r0\<lparr> inMemCount := Map.empty(ip \<mapsto> 1), inMemTTL := t1 \<rparr>"
  let ?r2 = "?r1\<lparr> inMemCount := (inMemCount ?r1)(ip \<mapsto> 2) \<rparr>"
  let ?r3 = "?r2\<lparr> inMemCount := (inMemCount ?r2)(ip \<mapsto> 3) \<rparr>"
  have c0: "RateLimiter.cfg ?r0 = c" "redis ?r0 = None" "inMemTTL ?r0 = zeroTime"
    by (simp_all add: NewRateLimiter_def)
  have a1: "Allow ?r0 srv NetOk NetOk ip t1 = ((True, 1), ?r1, srv)"
    using t(1) by (simp add: Allow_volatile c0 q allowInMem_reset zeroTime_def Second_def)
  have a2: "Allow ?r1 srv NetOk NetOk ip t2 = ((True, 0), ?r2, srv)"
    using t by (simp add: Allow_volatile c0 q allowInMem_same_window count_of_def)
  have a3: "Allow ?r2 srv NetOk NetOk ip t3 = ((False, - 1), ?r3, srv)"
    using t by (simp add: Allow_volatile c0 q allowInMem_same_window count_of_def)
  have a4: "Allow ?r3 srv NetOk NetOk ip t4
            = ((True, 1), ?r3\<lparr> inMemCount := Map.empty(ip \<mapsto> 1), inMemTTL := t4 \<rparr>, srv)"
    using t by (simp add: Allow_volatile c0 q allowInMem_reset)
  show ?thesis
    by (simp only: Allow_run.simps a1 a2 a3 a4 Let_def prod.case fst_conv)
qed

subsection \<open>Keys: \<open>Itoa\<close> is injective and a key determines client and minute\<close>

lemma digits_value_snoc:
  "digits_value n (xs @ [c]) =
     (case digits_value n xs of
        None \<Rightarrow> None
      | Some m \<Rightarrow> if is_digit c then Some (m * 10 + (of_char c - 48)) else None)"
  by (induction xs arbitrary: n) (auto split: option.splits)

lemma digit_char:
  assumes "n < 10"
  shows "is_digit (char_of (48 + n))" and "(of_char (char_of (48 + n)) :: int) = 48 + int n"
proof -
  have "(48 + n) mod 256 = 48 + n" using assms by simp
  then have "(of_char (char_of (48 + n)) :: nat) = 48 + n" by simp
  then have e: "(of_char (char_of (48 + n)) :: int) = 48 + int n"
    by (metis of_char_of of_nat_add of_nat_numeral of_nat_of_char)
  then show "(of_char (char_of (48 + n)) :: int) = 48 + int n" .
  from e assms show "is_digit (char_of (48 + n))" by (simp add: is_digit_def)
qed

lemma nat_digits_value: "digits_value 0 (nat_digits n) = Some (int n)"
proof (induction n rule: nat_digits.induct)
  case (1 n)
  show ?case
  proof (cases "n < 10")
    case True
    then show ?thesis
      by (subst nat_digits.simps) (simp add: digit_char)
  next
    case False
    have m: "n mod 10 < 10" by simp
    have "int (n div 10) * 10 + int (n mod 10) = int n"
      by (metis mult.commute of_nat_add of_nat_mult of_nat_numeral div_mult_mod_eq)
    with False 1 show ?thesis
      by (subst nat_digits.simps) (simp add: digits_value_snoc digit_char [OF m])
  qed
qed

lemma nat_digits_inj: "nat_digits m = nat_digits n \<Longrightarrow> m = n"
  by (metis nat_digits_value option.inject of_nat_eq_iff)

lemma nat_digits_hd: "\<exists>c cs. nat_digits n = c # cs \<and> is_digit c"
proof (induction n rule: nat_digits.induct)
  case (1 n)
  show ?case
  proof (cases "n < 10")
    case True
    then show ?thesis by (subst nat_digits.simps) (simp add: digit_char)
  next
    case False
    with 1 obtain c cs where "nat_digits (n div 10) = c # cs" "is_digit c" by blast
    with False show ?thesis by (subst nat_digits.simps) simp
  qed
qed

lemma Itoa_inj: "Itoa i = Itoa j \<Longrightarrow> i = j"
proof -
  assume e: "Itoa i = Itoa j"
  have nd: "\<not> is_digit CHR ''-''" by (simp add: is_digit_def)
  have ne: "CHR ''-'' # xs \<noteq> nat_digits n" for xs n
    using nat_digits_hd [of n] nd by auto
  show ?thesis
  proof (cases "i < 0")
    case True
    show ?thesis
    proof (cases "j < 0")
      case True
      with \<open>i < 0\<close> e have "nat_digits (nat (- i)) = nat_digits (nat (- j))"
        by (simp add: Itoa_def)
      then have "nat (- i) = nat (- j)" by (rule nat_digits_inj)
      with True \<open>i < 0\<close> show ?thesis by simp
    next
      case False
      with \<open>i < 0\<close> e ne show ?thesis by (simp add: Itoa_def)
    qed
  next
    case False
    show ?thesis
    proof (cases "j < 0")
      case True
      with False e ne [of "nat_digits (nat (- j))" "nat i"] show ?thesis by (simp add: Itoa_def)
    next
      case nj: False
      with False e have "nat_digits (nat i) = nat_digits (nat j)" by (simp add: Itoa_def)
      then have "nat i = nat j" by (rule nat_digits_inj)
      with False nj show ?thesis by simp
    qed
  qed
qed

lemma minuteKey_same_ip:
  "minuteKey ip t = minuteKey ip t' \<longleftrightarrow> go_quot (Unix t) 60 = go_quot (Unix t') 60"
  by (auto simp: minuteKey_def dest: Itoa_inj)

lemma same_minute_close:
  assumes "0 \<le> t" "t \<le> t'" "go_quot (Unix t) 60 = go_quot (Unix t') 60"
  shows "t' - t < 60 * Second"
proof -
  have u: "0 \<le> Unix t" "0 \<le> Unix t'" using assms by (simp_all add: Unix_def pos_imp_zdiv_nonneg_iff)
  have q: "go_quot (Unix x) 60 = x div 60000000000" if "0 \<le> x" for x
  proof -
    have "0 \<le> Unix x" using that by (simp add: Unix_def pos_imp_zdiv_nonneg_iff)
    then have "go_quot (Unix x) 60 = Unix x div 60"
      by (cases "Unix x = 0") (simp_all add: go_quot_def sgn_if)
    also have "\<dots> = x div 60000000000"
      by (simp add: Unix_def zdiv_zmult2_eq [symmetric])
    finally show ?thesis .
  qed
  from assms have "t div 60000000000 = t' div 60000000000" by (simp add: q)
  then show ?thesis
    unfolding Second_def by (smt (verit) div_mult_mod_eq pos_mod_bound pos_mod_sign)
qed

lemma nat_digits_all: "c \<in> set (nat_digits n) \<Longrightarrow> is_digit c"
proof (induction n rule: nat_digits.induct)
  case (1 n)
  show ?case
  proof (cases "n < 10")
    case True
    with "1.prems" show ?thesis
      by (subst (asm) nat_digits.simps) (simp add: digit_char)
  next
    case False
    have m: "n mod 10 < 10" by simp
    from False "1.prems" have "c \<in> set (nat_digits (n div 10)) \<or> c = char_of (48 + n mod 10)"
      by (subst (asm) nat_digits.simps) auto
    with False 1 show ?thesis using digit_char(1) [OF m] by auto
  qed
qed

lemma Itoa_no_colon: "CHR '':'' \<notin> set (Itoa i)"
proof
  assume "CHR '':'' \<in> set (Itoa i)"
  then have "CHR '':'' \<in> set (nat_digits (nat (- i))) \<or> CHR '':'' \<in> set (nat_digits (nat i))"
    by (auto simp: Itoa_def split: if_splits)
  then have "is_digit CHR '':''" using nat_digits_all by blast
  then show False by (simp add: is_digit_def)
qed

lemma split_last_colon:
  "xs @ CHR '':'' # ds = ys @ CHR '':'' # es \<Longrightarrow> CHR '':'' \<notin> set ds \<Longrightarrow> CHR '':'' \<notin> set es
   \<Longrightarrow> xs = ys \<and> ds = es"
proof (induction xs arbitrary: ys)
  case Nil
  then show ?case by (cases ys) auto
next
  case (Cons x xs)
  then show ?case by (cases ys) auto
qed

lemma minuteKey_key_of: "minuteKey ip t = key_of ip (minute_of t)"
  by (simp add: minuteKey_def key_of_def minute_of_def)

lemma key_of_inj: "key_of ip m = key_of ip' m' \<longleftrightarrow> ip = ip' \<and> m = m'"
proof
  assume "key_of ip m = key_of ip' m'"
  then have "ip @ CHR '':'' # Itoa m = ip' @ CHR '':'' # Itoa m'"
    by (simp add: key_of_def)
  then have "ip = ip' \<and> Itoa m = Itoa m'"
    by (rule split_last_colon) (rule Itoa_no_colon)+
  then show "ip = ip' \<and> m = m'" by (auto dest: Itoa_inj)
qed simp

subsection \<open>The durable path\<close>

lemma Allow_durable_ok:
  assumes "0 < RateLimitRPM (RateLimiter.cfg r)" "redis r = Some cl"
      and "redis_INCR now (minuteKey ip now) srv = (Inr n, srv1)"
  shows "Allow r srv NetOk net2 ip now =
           ((n \<le> RateLimitRPM (RateLimiter.cfg r), RateLimitRPM (RateLimiter.cfg r) - n), r,
            if n = 1 then snd (roundtrip net2 (redis_EXPIRE now (minuteKey ip now) (65 * Second)) srv1)
            else srv1)"
  using assms by (simp add: Allow_def Let_def roundtrip_def)

lemma INCR_fresh:
  "store srv k = None \<Longrightarrow> deadline srv k = None \<Longrightarrow>
   redis_INCR now k srv = (Inr 1, srv\<lparr> store := (store srv)(k \<mapsto> RInteger 1) \<rparr>)"
  by (simp add: redis_INCR_def expire_key_def)

lemma INCR_live:
  "store srv k = Some (RInteger n) \<Longrightarrow> deadline srv k = Some d \<Longrightarrow> now < d \<Longrightarrow>
   n < 9223372036854775807 \<Longrightarrow>
   redis_INCR now k srv = (Inr (n + 1), srv\<lparr> store := (store srv)(k \<mapsto> RInteger (n + 1)) \<rparr>)"
  by (simp add: redis_INCR_def expire_key_def)

lemma EXPIRE_live:
  "store srv k = Some v \<Longrightarrow> deadline srv k = None \<Longrightarrow>
   redis_EXPIRE now k d srv = (Inr True, srv\<lparr> deadline := (deadline srv)(k \<mapsto> now + d) \<rparr>)"
  by (simp add: redis_EXPIRE_def expire_key_def)

lemma scenario_durable:
  assumes q: "RateLimitRPM c = 2"
      and t: "0 \<le> t1" "t1 \<le> t2" "t2 \<le> t3"
      and m: "go_quot (Unix t2) 60 = go_quot (Unix t1) 60" "go_quot (Unix t3) 60 = go_quot (Unix t1) 60"
             "go_quot (Unix t4) 60 \<noteq> go_quot (Unix t1) 60"
  shows "fst (Allow_run (NewRateLimiter c (Some cl)) redis_empty [(ip, t1), (ip, t2), (ip, t3), (ip, t4)])
         = [(True, 1), (True, 0), (False, - 1), (True, 1)]"
proof -
  let ?r = "NewRateLimiter c (Some cl)"
  let ?k = "minuteKey ip t1"
  let ?k4 = "minuteKey ip t4"
  let ?s1 = "\<lparr> store = Map.empty(?k \<mapsto> RInteger 1), deadline = Map.empty(?k \<mapsto> t1 + 65 * Second) \<rparr>"
  let ?s2 = "?s1\<lparr> store := (store ?s1)(?k \<mapsto> RInteger 2) \<rparr>"
  let ?s3 = "?s2\<lparr> store := (store ?s2)(?k \<mapsto> RInteger 3) \<rparr>"
  let ?s4' = "?s3\<lparr> store := (store ?s3)(?k4 \<mapsto> RInteger 1) \<rparr>"
  let ?s4 = "?s4'\<lparr> deadline := (deadline ?s4')(?k4 \<mapsto> t4 + 65 * Second) \<rparr>"
  have c0: "0 < RateLimitRPM (RateLimiter.cfg ?r)" "redis ?r = Some cl" "RateLimitRPM (RateLimiter.cfg ?r) = 2"
    by (simp_all add: NewRateLimiter_def q)
  have k2: "minuteKey ip t2 = ?k" and k3: "minuteKey ip t3 = ?k" and k4: "?k4 \<noteq> ?k"
    using m by (simp_all add: minuteKey_same_ip)
  have d2: "t2 < t1 + 65 * Second" and d3: "t3 < t1 + 65 * Second"
    using same_minute_close [of t1 t2] same_minute_close [of t1 t3] t m
    by (simp_all add: Second_def)
  have i1: "redis_INCR t1 ?k redis_empty = (Inr 1, redis_empty\<lparr> store := (store redis_empty)(?k \<mapsto> RInteger 1) \<rparr>)"
    by (rule INCR_fresh) (simp_all add: redis_empty_def)
  have a1: "Allow ?r redis_empty NetOk NetOk ip t1 = ((True, 1), ?r, ?s1)"
    using Allow_durable_ok [OF c0(1,2) i1, of NetOk]
    by (simp add: c0(3) roundtrip_def EXPIRE_live redis_empty_def)
  have i2: "redis_INCR t2 (minuteKey ip t2) ?s1 = (Inr (1 + 1), ?s1\<lparr> store := (store ?s1)(minuteKey ip t2 \<mapsto> RInteger (1 + 1)) \<rparr>)"
    unfolding k2 by (rule INCR_live [where d = "t1 + 65 * Second"]) (simp_all add: d2)
  have a2: "Allow ?r ?s1 NetOk NetOk ip t2 = ((True, 0), ?r, ?s2)"
    using Allow_durable_ok [OF c0(1,2) i2] by (simp add: c0(3) k2)
  have i3: "redis_INCR t3 (minuteKey ip t3) ?s2 = (Inr (2 + 1), ?s2\<lparr> store := (store ?s2)(minuteKey ip t3 \<mapsto> RInteger (2 + 1)) \<rparr>)"
    unfolding k3 by (rule INCR_live [where d = "t1 + 65 * Second"]) (simp_all add: d3)
  have a3: "Allow ?r ?s2 NetOk NetOk ip t3 = ((False, - 1), ?r, ?s3)"
    using Allow_durable_ok [OF c0(1,2) i3] by (simp add: c0(3) k3)
  have i4: "redis_INCR t4 ?k4 ?s3 = (Inr 1, ?s3\<lparr> store := (store ?s3)(?k4 \<mapsto> RInteger 1) \<rparr>)"
    by (rule INCR_fresh) (simp_all add: k4)
  have a4: "Allow ?r ?s3 NetOk NetOk ip t4 = ((True, 1), ?r, ?s4)"
    using Allow_durable_ok [OF c0(1,2) i4, of NetOk] k4
    by (simp add: c0(3) roundtrip_def EXPIRE_live)
  show ?thesis
    by (simp only: Allow_run.simps a1 a2 a3 a4 Let_def prod.case fst_conv)
qed

lemma hits_snoc:
  "hits (pre @ [(ip, t)]) ip' m' = hits pre ip' m' + (if ip' = ip \<and> m' = minute_of t then 1 else 0)"
  by (auto simp: hits_def)

lemma hits_bound: "hits pre ip m \<le> int (length pre)" "0 \<le> hits pre ip m"
  by (simp_all add: hits_def)

lemma durable_step:
  assumes inv: "durable_inv pre T srv"
      and t: "T \<le> t" "0 \<le> t"
      and len: "int (length pre) < 9223372036854775807"
      and r: "0 < RateLimitRPM (RateLimiter.cfg r)" "redis r = Some cl"
  shows "\<exists>srv'. Allow r srv NetOk NetOk ip t =
            ((hits (pre @ [(ip, t)]) ip (minute_of t) \<le> RateLimitRPM (RateLimiter.cfg r),
              RateLimitRPM (RateLimiter.cfg r) - hits (pre @ [(ip, t)]) ip (minute_of t)), r, srv')
          \<and> durable_inv (pre @ [(ip, t)]) t srv'"
proof -
  let ?m = "minute_of t"
  let ?k = "key_of ip ?m"
  let ?q = "RateLimitRPM (RateLimiter.cfg r)"
  have k: "minuteKey ip t = ?k" by (rule minuteKey_key_of)
  show ?thesis
  proof (cases "hits pre ip ?m = 0")
    case True
    with inv have s: "store srv ?k = None" "deadline srv ?k = None"
      by (auto simp: durable_inv_def dest: spec [where x = ip])
    let ?s1 = "srv\<lparr> store := (store srv)(?k \<mapsto> RInteger 1) \<rparr>"
    let ?s2 = "?s1\<lparr> deadline := (deadline ?s1)(?k \<mapsto> t + 65 * Second) \<rparr>"
    have i: "redis_INCR t (minuteKey ip t) srv = (Inr 1, ?s1)"
      unfolding k by (rule INCR_fresh) (rule s)+
    have a: "Allow r srv NetOk NetOk ip t = ((1 \<le> ?q, ?q - 1), r, ?s2)"
      using Allow_durable_ok [OF r i, of NetOk] s
      by (simp add: k roundtrip_def EXPIRE_live)
    have h: "hits (pre @ [(ip, t)]) ip ?m = 1" using True by (simp add: hits_snoc)
    have "durable_inv (pre @ [(ip, t)]) t ?s2"
      unfolding durable_inv_def
    proof (intro allI)
      fix ip' m'
      show "if hits (pre @ [(ip, t)]) ip' m' = 0
            then store ?s2 (key_of ip' m') = None \<and> deadline ?s2 (key_of ip' m') = None
            else store ?s2 (key_of ip' m') = Some (RInteger (hits (pre @ [(ip, t)]) ip' m'))
                 \<and> (\<exists>t0. deadline ?s2 (key_of ip' m') = Some (t0 + 65 * Second)
                          \<and> minute_of t0 = m' \<and> 0 \<le> t0 \<and> t0 \<le> t)"
      proof (cases "ip' = ip \<and> m' = ?m")
        case True
        then show ?thesis using h t by auto
      next
        case False
        then have ne: "key_of ip' m' \<noteq> ?k" by (simp add: key_of_inj)
        have same: "hits (pre @ [(ip, t)]) ip' m' = hits pre ip' m'"
          using False by (auto simp: hits_snoc)
        from inv have "if hits pre ip' m' = 0
             then store srv (key_of ip' m') = None \<and> deadline srv (key_of ip' m') = None
             else store srv (key_of ip' m') = Some (RInteger (hits pre ip' m'))
                  \<and> (\<exists>t0. deadline srv (key_of ip' m') = Some (t0 + 65 * Second)
                           \<and> minute_of t0 = m' \<and> 0 \<le> t0 \<and> t0 \<le> T)"
          unfolding durable_inv_def by blast
        with ne same t(1) show ?thesis
          by (auto split: if_splits intro: order_trans)
      qed
    qed
    with a h show ?thesis by simp
  next
    case False
    with inv obtain t0 where s: "store srv ?k = Some (RInteger (hits pre ip ?m))"
      "deadline srv ?k = Some (t0 + 65 * Second)" "minute_of t0 = ?m" "0 \<le> t0" "t0 \<le> T"
      unfolding durable_inv_def by (metis (no_types, lifting))
    have "t - t0 < 60 * Second"
      using same_minute_close [of t0 t] s(3,4,5) t(1) by (simp add: minute_of_def)
    then have live: "t < t0 + 65 * Second" by (simp add: Second_def)
    have b: "hits pre ip ?m < 9223372036854775807"
      using hits_bound(1) [of pre ip ?m] len by linarith
    let ?s1 = "srv\<lparr> store := (store srv)(?k \<mapsto> RInteger (hits pre ip ?m + 1)) \<rparr>"
    have i: "redis_INCR t (minuteKey ip t) srv = (Inr (hits pre ip ?m + 1), ?s1)"
      unfolding k by (rule INCR_live [OF s(1) s(2) live b])
    have n1: "hits pre ip ?m + 1 \<noteq> 1" using False by simp
    have a: "Allow r srv NetOk NetOk ip t = ((hits pre ip ?m + 1 \<le> ?q, ?q - (hits pre ip ?m + 1)), r, ?s1)"
      using Allow_durable_ok [OF r i, of NetOk] n1 by simp
    have h: "hits (pre @ [(ip, t)]) ip ?m = hits pre ip ?m + 1" by (simp add: hits_snoc)
    have "durable_inv (pre @ [(ip, t)]) t ?s1"
      unfolding durable_inv_def
    proof (intro allI)
      fix ip' m'
      show "if hits (pre @ [(ip, t)]) ip' m' = 0
            then store ?s1 (key_of ip' m') = None \<and> deadline ?s1 (key_of ip' m') = None
            else store ?s1 (key_of ip' m') = Some (RInteger (hits (pre @ [(ip, t)]) ip' m'))
                 \<and> (\<exists>t0. deadline ?s1 (key_of ip' m') = Some (t0 + 65 * Second)
                          \<and> minute_of t0 = m' \<and> 0 \<le> t0 \<and> t0 \<le> t)"
      proof (cases "ip' = ip \<and> m' = ?m")
        case True
        have "hits pre ip ?m + 1 \<noteq> 0" using hits_bound(2) [of pre ip ?m] by linarith
        with True s t(1) h show ?thesis by auto
      next
        case False
        then have ne: "key_of ip' m' \<noteq> ?k" by (simp add: key_of_inj)
        have same: "hits (pre @ [(ip, t)]) ip' m' = hits pre ip' m'"
          using False by (auto simp: hits_snoc)
        from inv have "if hits pre ip' m' = 0
             then store srv (key_of ip' m') = None \<and> deadline srv (key_of ip' m') = None
             else store srv (key_of ip' m') = Some (RInteger (hits pre ip' m'))
                  \<and> (\<exists>t0. deadline srv (key_of ip' m') = Some (t0 + 65 * Second)
                           \<and> minute_of t0 = m' \<and> 0 \<le> t0 \<and> t0 \<le> T)"
          unfolding durable_inv_def by blast
        with ne same t(1) show ?thesis
          by (auto split: if_splits intro: order_trans)
      qed
    qed
    with a h show ?thesis by simp
  qed
qed

subsection \<open>Runs\<close>

lemma Allow_run_snoc:
  "Allow_run r srv (cs @ [(ip, t)]) =
     (let (vs, r', srv') = Allow_run r srv cs;
          (v, r'', srv'') = Allow r' srv' NetOk NetOk ip t
      in (vs @ [v], r'', srv''))"
  by (induction r srv cs rule: Allow_run.induct) (simp_all add: Let_def split: prod.splits)

lemma volatile_window_snoc':
  "volatile_window u w (cs @ [(ip, t)]) =
     (if t - volatile_reset u cs > 60 * Second then [(ip, t)] else volatile_window u w cs @ [(ip, t)])"
  by (induction u w cs rule: volatile_window.induct) auto

lemma volatile_run_state:
  assumes "0 < RateLimitRPM (RateLimiter.cfg r)" "redis r = None"
      and "\<forall>ip. count_of (inMemCount r) ip = requests_of ip w"
      and "Allow_run r srv cs = (vs, r', srv')"
  shows "RateLimiter.cfg r' = RateLimiter.cfg r \<and> redis r' = None \<and> inMemTTL r' = volatile_reset (inMemTTL r) cs
         \<and> (\<forall>ip. count_of (inMemCount r') ip = requests_of ip (volatile_window (inMemTTL r) w cs))"
  using assms
proof (induction cs arbitrary: r w vs)
  case Nil
  then show ?case by simp
next
  case (Cons c cs)
  obtain ip t where c: "c = (ip, t)" by (cases c)
  obtain v r1 where a: "allowInMem r ip (RateLimitRPM (RateLimiter.cfg r)) t = (v, r1)"
    by (cases "allowInMem r ip (RateLimitRPM (RateLimiter.cfg r)) t")
  have al: "Allow r srv NetOk NetOk ip t = (v, r1, srv)"
    using Cons.prems(1,2) a by (simp add: Allow_volatile)
  obtain vs1 where run: "Allow_run r1 srv cs = (vs1, r', srv')"
    using Cons.prems(4) by (simp add: c al split: prod.splits)
  show ?case
  proof (cases "t - inMemTTL r > 60 * Second")
    case True
    with a have r1: "r1 = r\<lparr> inMemCount := Map.empty(ip \<mapsto> 1), inMemTTL := t \<rparr>"
      by (simp add: allowInMem_reset)
    have "\<forall>ip'. count_of (inMemCount r1) ip' = requests_of ip' [(ip, t)]"
      by (simp add: r1 count_of_def requests_of_def)
    from Cons.IH [OF _ _ this run] Cons.prems(1,2) True show ?thesis
      by (simp add: r1 c)
  next
    case False
    with a have r1: "r1 = r\<lparr> inMemCount := (inMemCount r)(ip \<mapsto> count_of (inMemCount r) ip + 1) \<rparr>"
      by (simp add: allowInMem_same_window)
    have "\<forall>ip'. count_of (inMemCount r1) ip' = requests_of ip' (w @ [(ip, t)])"
      using Cons.prems(3) by (simp add: r1 count_of_def requests_of_def)
    from Cons.IH [OF _ _ this run] Cons.prems(1,2) False show ?thesis
      by (simp add: r1 c)
  qed
qed

lemma volatile_last_verdict:
  assumes q: "0 < RateLimitRPM c"
  shows "last (fst (Allow_run (NewRateLimiter c None) srv (cs @ [(ip, t)]))) =
           (requests_of ip (volatile_window zeroTime [] (cs @ [(ip, t)])) \<le> RateLimitRPM c,
            RateLimitRPM c - requests_of ip (volatile_window zeroTime [] (cs @ [(ip, t)])))"
proof -
  let ?r = "NewRateLimiter c None"
  obtain vs r' srv' where run: "Allow_run ?r srv cs = (vs, r', srv')"
    by (cases "Allow_run ?r srv cs")
  have r0: "0 < RateLimitRPM (RateLimiter.cfg ?r)" "redis ?r = None" "inMemTTL ?r = zeroTime"
    "\<forall>ip. count_of (inMemCount ?r) ip = requests_of ip []"
    using q by (simp_all add: NewRateLimiter_def count_of_def requests_of_def)
  from volatile_run_state [OF r0(1,2,4) run]
  have st: "RateLimiter.cfg r' = c" "redis r' = None" "inMemTTL r' = volatile_reset zeroTime cs"
    "\<And>ip. count_of (inMemCount r') ip = requests_of ip (volatile_window zeroTime [] cs)"
    by (simp_all add: NewRateLimiter_def)
  have "last (fst (Allow_run ?r srv (cs @ [(ip, t)]))) = fst (Allow r' srv' NetOk NetOk ip t)"
    by (simp add: Allow_run_snoc run split: prod.splits)
  also have "\<dots> = fst (allowInMem r' ip (RateLimitRPM c) t)"
    using q st by (simp add: Allow_volatile)
  also have "\<dots> = (requests_of ip (volatile_window zeroTime [] (cs @ [(ip, t)])) \<le> RateLimitRPM c,
            RateLimitRPM c - requests_of ip (volatile_window zeroTime [] (cs @ [(ip, t)])))"
  proof (cases "t - inMemTTL r' > 60 * Second")
    case True
    then show ?thesis
      by (simp add: allowInMem_reset volatile_window_snoc' st(3) requests_of_def)
  next
    case False
    then show ?thesis
      by (simp add: allowInMem_same_window volatile_window_snoc' st(3) st(4) requests_of_def add.commute)
  qed
  finally show ?thesis .
qed

lemma durable_run_state:
  assumes "durable_inv pre T srv"
      and "sorted (T # map snd cs)" "\<forall>c \<in> set cs. 0 \<le> snd c"
      and "int (length pre + length cs) < 9223372036854775808"
      and "0 < RateLimitRPM (RateLimiter.cfg r)" "redis r = Some cl"
      and "Allow_run r srv cs = (vs, r', srv')"
  shows "r' = r \<and> durable_inv (pre @ cs) (last (T # map snd cs)) srv'"
  using assms
proof (induction cs arbitrary: pre T srv vs)
  case Nil
  then show ?case by simp
next
  case (Cons c cs)
  obtain ip t where c: "c = (ip, t)" by (cases c)
  have t: "T \<le> t" "0 \<le> t" using Cons.prems(2,3) by (simp_all add: c)
  have len: "int (length pre) < 9223372036854775807" using Cons.prems(4) by simp
  from durable_step [OF Cons.prems(1) t len Cons.prems(5,6)]
  obtain srv1 v where a: "Allow r srv NetOk NetOk ip t = (v, r, srv1)"
    and inv1: "durable_inv (pre @ [(ip, t)]) t srv1" by blast
  obtain vs1 where run: "Allow_run r srv1 cs = (vs1, r', srv')"
    using Cons.prems(7) by (simp add: c a split: prod.splits)
  have s: "sorted (t # map snd cs)" using Cons.prems(2) by (simp add: c)
  have p: "\<forall>c \<in> set cs. 0 \<le> snd c" using Cons.prems(3) by simp
  have l: "int (length (pre @ [(ip, t)]) + length cs) < 9223372036854775808"
    using Cons.prems(4) by simp
  from Cons.IH [OF inv1 s p l Cons.prems(5,6) run] show ?case
    by (simp add: c)
qed

lemma redis_empty_inv: "durable_inv [] 0 redis_empty"
  by (simp add: durable_inv_def hits_def redis_empty_def)

lemma requests_durable_window:
  "requests_of ip (durable_window t calls) = hits calls ip (minute_of t)"
proof -
  have "filter (\<lambda>c. fst c = ip) (filter (\<lambda>c. go_quot (Unix (snd c)) 60 = go_quot (Unix t) 60) calls)
        = filter (\<lambda>c. fst c = ip \<and> minute_of (snd c) = minute_of t) calls"
    by (simp add: minute_of_def conj_commute)
  then show ?thesis by (simp add: requests_of_def durable_window_def hits_def)
qed

lemma durable_last_verdict:
  assumes q: "0 < RateLimitRPM c"
      and s: "sorted (map snd (cs @ [(ip, t)]))" and p: "\<forall>x \<in> set cs. 0 \<le> snd x" "0 \<le> t"
      and len: "int (length cs) < 9223372036854775807"
  shows "last (fst (Allow_run (NewRateLimiter c (Some cl)) redis_empty (cs @ [(ip, t)]))) =
           (requests_of ip (durable_window t (cs @ [(ip, t)])) \<le> RateLimitRPM c,
            RateLimitRPM c - requests_of ip (durable_window t (cs @ [(ip, t)])))"
proof -
  let ?r = "NewRateLimiter c (Some cl)"
  obtain vs r' srv' where run: "Allow_run ?r redis_empty cs = (vs, r', srv')"
    by (cases "Allow_run ?r redis_empty cs")
  have r0: "0 < RateLimitRPM (RateLimiter.cfg ?r)" "redis ?r = Some cl" "RateLimiter.cfg ?r = c"
    using q by (simp_all add: NewRateLimiter_def)
  have s0: "sorted (0 # map snd cs)" using s p by (auto simp: sorted_append)
  have l0: "int (length ([] :: (string \<times> time) list) + length cs) < 9223372036854775808"
    using len by simp
  from durable_run_state [OF redis_empty_inv s0 p(1) l0 r0(1,2) run]
  have st: "r' = ?r" "durable_inv cs (last (0 # map snd cs)) srv'" by simp_all
  have T: "last (0 # map snd cs) \<le> t"
    using s p(2) by (cases "cs = []") (auto simp: sorted_append last_map)
  from durable_step [OF st(2) T p(2) len r0(1,2), of ip]
  have "fst (Allow ?r srv' NetOk NetOk ip t) =
          (hits (cs @ [(ip, t)]) ip (minute_of t) \<le> RateLimitRPM c,
           RateLimitRPM c - hits (cs @ [(ip, t)]) ip (minute_of t))"
    by (auto simp: r0(3))
  moreover have "last (fst (Allow_run ?r redis_empty (cs @ [(ip, t)]))) = fst (Allow r' srv' NetOk NetOk ip t)"
    by (simp add: Allow_run_snoc run split: prod.splits)
  ultimately show ?thesis by (simp add: st(1) requests_durable_window)
qed

subsection \<open>Claims about the rate limiter\<close>

text \<open>
  Claim C5, as the code has it.  \<open>Allow\<close> with quota \<open>q\<close>: when \<open>q \<le> 0\<close> the request is allowed,
  whatever the state.  When \<open>q > 0\<close>, let \<open>currentCount\<close> be the number of requests of the client
  in the current window, this one included; then the request is allowed iff
  \<open>currentCount \<le> q\<close>, and the remaining quota is \<open>q - currentCount\<close>, as long as one backend
  has served all the calls: for the volatile limiter after any sequence of calls, the window
  being the calls since the last reset, and for the durable limiter after any sequence of calls
  in the order of their (non-negative) times, the window being the minute of the call, when
  every round trip to Redis gets through.  (A call for which Redis fails is counted by the
  volatile path only; see the counterexample below and claim C9.)
\<close>

theorem Allow_decides_by_window_count:
  "(RateLimitRPM (RateLimiter.cfg r) \<le> 0 \<longrightarrow> fst (fst (Allow r srv net1 net2 ip now)))
   \<and> (0 < RateLimitRPM c \<longrightarrow>
        last (fst (Allow_run (NewRateLimiter c None) srv (calls @ [(ip, now)]))) =
          (let currentCount = requests_of ip (volatile_window zeroTime [] (calls @ [(ip, now)]))
           in (currentCount \<le> RateLimitRPM c, RateLimitRPM c - currentCount)))
   \<and> (0 < RateLimitRPM c \<and> sorted (map snd (calls @ [(ip, now)])) \<and> (\<forall>x \<in> set calls. 0 \<le> snd x)
        \<and> 0 \<le> now \<and> int (length calls) < 9223372036854775807 \<longrightarrow>
        last (fst (Allow_run (NewRateLimiter c (Some cl)) redis_empty (calls @ [(ip, now)]))) =
          (let currentCount = requests_of ip (durable_window now (calls @ [(ip, now)]))
           in (currentCount \<le> RateLimitRPM c, RateLimitRPM c - currentCount)))"
proof (intro conjI impI)
  assume "RateLimitRPM (RateLimiter.cfg r) \<le> 0"
  then show "fst (fst (Allow r srv net1 net2 ip now))"
    by (simp add: Allow_def)
next
  assume "0 < RateLimitRPM c"
  then show "last (fst (Allow_run (NewRateLimiter c None) srv (calls @ [(ip, now)]))) =
          (let currentCount = requests_of ip (volatile_window zeroTime [] (calls @ [(ip, now)]))
           in (currentCount \<le> RateLimitRPM c, RateLimitRPM c - currentCount))"
    unfolding Let_def by (rule volatile_last_verdict)
next
  assume a: "0 < RateLimitRPM c \<and> sorted (map snd (calls @ [(ip, now)])) \<and> (\<forall>x \<in> set calls. 0 \<le> snd x)
        \<and> 0 \<le> now \<and> int (length calls) < 9223372036854775807"
  then show "last (fst (Allow_run (NewRateLimiter c (Some cl)) redis_empty (calls @ [(ip, now)]))) =
          (let currentCount = requests_of ip (durable_window now (calls @ [(ip, now)]))
           in (currentCount \<le> RateLimitRPM c, RateLimitRPM c - currentCount))"
    unfolding Let_def by (intro durable_last_verdict) simp_all
qed

text \<open>
  The theorem at work, quota 2: with the quota switched off (0) a call is allowed; the third
  call of client A within a minute is refused, in the volatile and in the durable limiter.
\<close>

theorem Allow_decides_by_window_count_witness:
  "fst (fst (Allow (NewRateLimiter (quota_cfg 0) None) redis_empty NetOk NetOk ''A'' 2000000000))
   \<and> last (fst (Allow_run (NewRateLimiter (quota_cfg 2) None) redis_empty
               ([(''A'', 0), (''A'', 1000000000)] @ [(''A'', 2000000000)]))) = (False, - 1)
   \<and> last (fst (Allow_run (NewRateLimiter (quota_cfg 2) (Some \<lparr> Addr = ''redis:6379'', Password = [], DB = 0 \<rparr>))
               redis_empty ([(''A'', 0), (''A'', 1000000000)] @ [(''A'', 2000000000)]))) = (False, - 1)"
  using Allow_decides_by_window_count
          [where r = "NewRateLimiter (quota_cfg 0) None" and srv = redis_empty and ?net1.0 = NetOk
             and ?net2.0 = NetOk and ip = "''A''" and now = 2000000000 and c = "quota_cfg 2"
             and calls = "[(''A'', 0), (''A'', 1000000000)]"
             and cl = "\<lparr> Addr = ''redis:6379'', Password = [], DB = 0 \<rparr>"]
  by (simp add: NewRateLimiter_def requests_of_def durable_window_def Second_def zeroTime_def
        go_quot_def Unix_def Let_def)

text \<open>
  The claim as stated, for every call, fails where the backends take turns: quota 2, the first
  two calls of client A are counted by Redis, Redis is unreachable for the third, which the
  volatile path counts as its first.  It is the client's third request of the window (of
  either backend's window), and it is allowed, with remaining quota 1.
\<close>

lemma minuteKey_A:
  "minuteKey ''A'' 0 = ''ratelimit:A:0''" "minuteKey ''A'' 1000000000 = ''ratelimit:A:0''"
  "minuteKey ''A'' 2000000000 = ''ratelimit:A:0''"
  by code_simp+

theorem degraded_backend_counterexample:
  "(let r = NewRateLimiter (quota_cfg 2) (Some \<lparr> Addr = ''redis:6379'', Password = [], DB = 0 \<rparr>);
        (v1, r1, s1) = Allow r redis_empty NetOk NetOk ''A'' 0;
        (v2, r2, s2) = Allow r1 s1 NetOk NetOk ''A'' 1000000000;
        (v3, r3, s3) = Allow r2 s2 NetErr NetOk ''A'' 2000000000
    in v1 = (True, 1) \<and> v2 = (True, 0) \<and> v3 = (True, 1))
   \<and> requests_of ''A'' (durable_window 2000000000 [(''A'', 0), (''A'', 1000000000), (''A'', 2000000000)]) = 3
   \<and> requests_of ''A'' (volatile_window zeroTime [] [(''A'', 0), (''A'', 1000000000), (''A'', 2000000000)]) = 3
   \<and> \<not> (3 \<le> RateLimitRPM (quota_cfg 2))"
  by (simp add: Allow_def NewRateLimiter_def minuteKey_A roundtrip_def redis_INCR_def
        redis_EXPIRE_def expire_key_def redis_empty_def allowInMem_def Sub_def zeroTime_def
        Second_def maxDuration_def minDuration_def count_of_def Let_def requests_of_def
        durable_window_def go_quot_def Unix_def)


text \<open>
  Claim C6, as the code has it.  Quota 2 per minute, one client: of three calls in quick
  succession the first two are allowed (remaining quota 1, then 0) and the third is refused
  with remaining quota \<open>-1\<close> (not 0: the remaining quota is \<open>quota - count\<close> and is not cut off
  at zero); once the window has rolled over a fourth call is allowed.  Volatile limiter: the
  three calls lie within a minute of the first, the fourth more than a minute after it.
  Durable limiter: the three calls lie in one minute of the clock, the fourth in another.
\<close>

theorem three_calls_then_rollover:
  "RateLimitRPM c = 2 \<longrightarrow>
     (0 \<le> t1 \<and> t1 \<le> t2 \<and> t2 \<le> t3 \<and> t3 - t1 \<le> 60 * Second \<and> t4 - t1 > 60 * Second \<longrightarrow>
        fst (Allow_run (NewRateLimiter c None) srv [(ip, t1), (ip, t2), (ip, t3), (ip, t4)])
          = [(True, 1), (True, 0), (False, - 1), (True, 1)])
   \<and> (0 \<le> t1 \<and> t1 \<le> t2 \<and> t2 \<le> t3 \<and> minute_of t2 = minute_of t1 \<and> minute_of t3 = minute_of t1
        \<and> minute_of t4 \<noteq> minute_of t1 \<longrightarrow>
        fst (Allow_run (NewRateLimiter c (Some cl)) redis_empty [(ip, t1), (ip, t2), (ip, t3), (ip, t4)])
          = [(True, 1), (True, 0), (False, - 1), (True, 1)])"
proof (intro impI conjI)
  assume q: "RateLimitRPM c = 2"
    and t: "0 \<le> t1 \<and> t1 \<le> t2 \<and> t2 \<le> t3 \<and> t3 - t1 \<le> 60 * Second \<and> t4 - t1 > 60 * Second"
  from t show "fst (Allow_run (NewRateLimiter c None) srv [(ip, t1), (ip, t2), (ip, t3), (ip, t4)])
          = [(True, 1), (True, 0), (False, - 1), (True, 1)]"
    by (intro scenario_volatile [OF q]) simp_all
next
  assume q: "RateLimitRPM c = 2"
    and t: "0 \<le> t1 \<and> t1 \<le> t2 \<and> t2 \<le> t3 \<and> minute_of t2 = minute_of t1 \<and> minute_of t3 = minute_of t1
        \<and> minute_of t4 \<noteq> minute_of t1"
  from t show "fst (Allow_run (NewRateLimiter c (Some cl)) redis_empty [(ip, t1), (ip, t2), (ip, t3), (ip, t4)])
          = [(True, 1), (True, 0), (False, - 1), (True, 1)]"
    by (intro scenario_durable [OF q]) (simp_all add: minute_of_def)
qed

theorem three_calls_then_rollover_witness:
  "fst (Allow_run (NewRateLimiter (quota_cfg 2) None) redis_empty
          [(''A'', 0), (''A'', 1000000000), (''A'', 2000000000), (''A'', 61000000000)])
     = [(True, 1), (True, 0), (False, - 1), (True, 1)]
   \<and> fst (Allow_run (NewRateLimiter (quota_cfg 2) (Some \<lparr> Addr = ''redis:6379'', Password = [], DB = 0 \<rparr>))
          redis_empty [(''A'', 0), (''A'', 1000000000), (''A'', 2000000000), (''A'', 61000000000)])
     = [(True, 1), (True, 0), (False, - 1), (True, 1)]"
  using three_calls_then_rollover
          [of "quota_cfg 2" 0 1000000000 2000000000 61000000000 redis_empty "''A''"
              "\<lparr> Addr = ''redis:6379'', Password = [], DB = 0 \<rparr>"]
  by (simp add: Second_def minute_of_def go_quot_def Unix_def)

text \<open>
  The claim as stated fails: in that scenario the third call comes back with remaining
  quota \<open>-1\<close>, not 0.
\<close>

theorem third_call_remaining_counterexample:
  "fst (Allow_run (NewRateLimiter (quota_cfg 2) None) redis_empty
          [(''A'', 0), (''A'', 1000000000), (''A'', 2000000000), (''A'', 61000000000)]) ! 2
     = (False, - 1)
   \<and> snd (fst (Allow_run (NewRateLimiter (quota_cfg 2) None) redis_empty
          [(''A'', 0), (''A'', 1000000000), (''A'', 2000000000), (''A'', 61000000000)]) ! 2) \<noteq> 0"
proof -
  have "fst (Allow_run (NewRateLimiter (quota_cfg 2) None) redis_empty
          [(''A'', 0), (''A'', 1000000000), (''A'', 2000000000), (''A'', 61000000000)])
        = [(True, 1), (True, 0), (False, - 1), (True, 1)]"
    by (rule scenario_volatile) (simp_all add: Second_def)
  then show ?thesis by simp
qed

text \<open>
  Claim C9.  The limiter has a Redis client and limiting is on.  When the increment does not
  come back with a number (the round trip fails or times out, or the server answers with an
  error), \<open>Allow\<close> returns exactly what the volatile path returns for this call, and leaves
  the limiter as the volatile path leaves it: the backend's failure by itself refuses nothing.
\<close>

theorem Allow_falls_back_on_backend_error:
  assumes rpm: "0 < RateLimitRPM (RateLimiter.cfg r)"
      and cl: "redis r = Some client"
      and err: "net1 \<noteq> NetOk \<or> (\<exists>e. fst (redis_INCR now (minuteKey ip now) srv) = Inl e)"
  shows "fst (Allow r srv net1 net2 ip now) = fst (allowInMem r ip (RateLimitRPM (RateLimiter.cfg r)) now)
       \<and> fst (snd (Allow r srv net1 net2 ip now)) = snd (allowInMem r ip (RateLimitRPM (RateLimiter.cfg r)) now)"
proof -
  obtain e where e: "fst (roundtrip net1 (redis_INCR now (minuteKey ip now)) srv) = Inl e"
  proof (cases "net1 = NetOk")
    case True
    with err obtain e' where "fst (redis_INCR now (minuteKey ip now) srv) = Inl e'" by blast
    with True have "fst (roundtrip net1 (redis_INCR now (minuteKey ip now)) srv) = Inl e'"
      by (simp add: roundtrip_def)
    then show ?thesis by (rule that)
  next
    case False
    then have "fst (roundtrip net1 (redis_INCR now (minuteKey ip now)) srv) = Inl Network"
      by (rule roundtrip_error)
    then show ?thesis by (rule that)
  qed
  then obtain srv1 where rt: "roundtrip net1 (redis_INCR now (minuteKey ip now)) srv = (Inl e, srv1)"
    by (cases "roundtrip net1 (redis_INCR now (minuteKey ip now)) srv") simp
  obtain v r' where am: "allowInMem r ip (RateLimitRPM (RateLimiter.cfg r)) now = (v, r')"
    by (cases "allowInMem r ip (RateLimitRPM (RateLimiter.cfg r)) now")
  from rpm cl rt am show ?thesis
    by (simp add: Allow_def Let_def)
qed

text \<open>The theorem at work: Redis unreachable, fresh limiter with quota 2, the call is allowed.\<close>

theorem Allow_falls_back_on_backend_error_witness:
  "fst (Allow (NewRateLimiter (quota_cfg 2) (Some \<lparr> Addr = ''redis:6379'', Password = [], DB = 0 \<rparr>))
          redis_empty NetErr NetOk ''10.0.0.1'' 0) = (True, 1)"
  using Allow_falls_back_on_backend_error
          [of "NewRateLimiter (quota_cfg 2) (Some \<lparr> Addr = ''redis:6379'', Password = [], DB = 0 \<rparr>)"
              "\<lparr> Addr = ''redis:6379'', Password = [], DB = 0 \<rparr>" NetErr 0 "''10.0.0.1''" redis_empty NetOk]
  by (simp add: NewRateLimiter_def allowInMem_def Let_def Sub_def zeroTime_def Second_def
        maxDuration_def minDuration_def count_of_def)

section \<open>The volatile queue\<close>

lemma Publish_open:
  assumes "\<not> closed (queue q)" "\<not> closed (stop q)" "buf (stop q) = []"
  shows "Publish q pick m =
           (if length (buf (queue q)) < cap (queue q)
            then Returns (None, q\<lparr> queue := (queue q)\<lparr> buf := buf (queue q) @ [m] \<rparr> \<rparr>)
            else Returns (Some (QueueFull (JobID m)), q))"
  using assms by (simp add: Publish_def ready_cases_def can_send_def can_recv_def)

lemma Publish_closed:
  assumes "closed (queue q)" "closed (stop q)"
  shows "Publish q pick m = (if even pick then Panics ''send on closed channel'' else Returns (Some QueueClosed, q))"
proof -
  have r: "ready_cases q = [SendQueue, RecvStop]"
    using assms by (simp add: ready_cases_def can_send_def can_recv_def)
  have e: "even pick \<Longrightarrow> pick mod Suc (Suc 0) = 0" by presburger
  have o: "odd pick \<Longrightarrow> pick mod Suc (Suc 0) = Suc 0" by presburger
  show ?thesis
    using assms by (cases "even pick") (simp_all add: Publish_def r e o)
qed

lemma Close_closes:
  assumes "\<not> once q" "\<not> closed (queue q)" "\<not> closed (stop q)"
  shows "Close q = Returns (q\<lparr> queue := (queue q)\<lparr> closed := True \<rparr>, stop := (stop q)\<lparr> closed := True \<rparr>, once := True \<rparr>)"
  using assms by (simp add: Close_def close_chan_def)

lemma publish_all_fill:
  assumes "\<not> closed (queue q)" "\<not> closed (stop q)" "buf (stop q) = []"
      and "length (buf (queue q)) + length ms \<le> cap (queue q)"
  shows "publish_all q pick ms = Returns (map (\<lambda>m. None) ms, q\<lparr> queue := (queue q)\<lparr> buf := buf (queue q) @ ms \<rparr> \<rparr>)"
  using assms
proof (induction ms arbitrary: q)
  case Nil
  then show ?case by simp
next
  case (Cons m ms)
  let ?q' = "q\<lparr> queue := (queue q)\<lparr> buf := buf (queue q) @ [m] \<rparr> \<rparr>"
  have p: "Publish q pick m = Returns (None, ?q')"
    using Cons.prems by (simp add: Publish_open)
  have "publish_all ?q' pick ms = Returns (map (\<lambda>m. None) ms, ?q'\<lparr> queue := (queue ?q')\<lparr> buf := buf (queue ?q') @ ms \<rparr> \<rparr>)"
    using Cons.prems by (intro Cons.IH) simp_all
  with p show ?case by simp
qed

lemma publish_one_too_many:
  assumes "0 \<le> bufferSize" "NewInMemoryQueue bufferSize = Returns q" "length ms = nat bufferSize"
  shows "\<exists>q'. publish_all q pick (ms @ [m]) = Returns (map (\<lambda>m. None) ms @ [Some (QueueFull (JobID m))], q')"
proof -
  from assms(1,2) have q: "q = \<lparr> queue = \<lparr> buf = [], cap = nat bufferSize, closed = False \<rparr>,
                        stop = \<lparr> buf = [], cap = 0, closed = False \<rparr>, once = False \<rparr>"
    by (simp add: NewInMemoryQueue_def make_chan_def)
  have app: "publish_all a pick (xs @ [m]) =
          (case publish_all a pick xs of
             Panics p \<Rightarrow> Panics p
           | Returns (es, a') \<Rightarrow>
               (case Publish a' pick m of Panics p \<Rightarrow> Panics p | Returns (e, a'') \<Rightarrow> Returns (es @ [e], a'')))" for a xs
    by (induction xs arbitrary: a) (auto split: outcome.splits prod.splits)
  let ?q' = "q\<lparr> queue := (queue q)\<lparr> buf := buf (queue q) @ ms \<rparr> \<rparr>"
  have f: "publish_all q pick ms = Returns (map (\<lambda>m. None) ms, ?q')"
    by (rule publish_all_fill) (simp_all add: q assms(3))
  have "Publish ?q' pick m = Returns (Some (QueueFull (JobID m)), ?q')"
    by (simp add: Publish_open q assms(3))
  with f show ?thesis by (simp add: app)
qed

text \<open>
  Claim C7.  An open queue behaves as claimed (\<open>Publish_open\<close>, \<open>publish_one_too_many\<close>): a
  \<open>Publish\<close> fails, with \<open>QueueFull\<close> and the queue unchanged, exactly when the buffer is full.
  After \<open>Close\<close> it does not: \<open>Close\<close> closes \<open>stop\<close> and also \<open>queue\<close>, so in the \<open>select\<close> of
  \<open>Publish\<close> both the receive from \<open>stop\<close> and the send on the closed \<open>queue\<close> can proceed, and
  when the send is the one picked, \<open>Publish\<close> panics instead of returning \<open>QueueClosed\<close>
  (\<open>Publish_closed\<close>).  Below, the queue of both \<open>main\<close>s, closed, then one \<open>Publish\<close>.
\<close>

theorem Publish_after_Close_panics:
  "NewInMemoryQueue 100 = Returns \<lparr> queue = \<lparr> buf = [], cap = 100, closed = False \<rparr>,
                                     stop = \<lparr> buf = [], cap = 0, closed = False \<rparr>, once = False \<rparr>
   \<and> Close \<lparr> queue = \<lparr> buf = [], cap = 100, closed = False \<rparr>,
             stop = \<lparr> buf = [], cap = 0, closed = False \<rparr>, once = False \<rparr>
       = Returns \<lparr> queue = \<lparr> buf = [], cap = 100, closed = True \<rparr>,
                   stop = \<lparr> buf = [], cap = 0, closed = True \<rparr>, once = True \<rparr>
   \<and> Publish \<lparr> queue = \<lparr> buf = [], cap = 100, closed = True \<rparr>,
               stop = \<lparr> buf = [], cap = 0, closed = True \<rparr>, once = True \<rparr>
         0 \<lparr> JobID = ''j1'', JobMessage.OriginalURL = ''https://youtu.be/x'' \<rparr>
       = Panics ''send on closed channel''"
  by (simp add: NewInMemoryQueue_def make_chan_def Close_def close_chan_def Publish_def
        ready_cases_def can_send_def can_recv_def)

section \<open>The job stores\<close>

lemma DeleteJob_volatile:
  "DeleteJob d jobID =
     (if jobs d jobID = None then (Some (JobNotFoundForDeletion jobID), d)
      else (None, d\<lparr> jobs := (jobs d)(jobID := None) \<rparr>))"
  "jobs d jobID = None \<Longrightarrow> \<exists>e. fst (DeleteJob d jobID) = Some e \<and> is_NotFound e"
  "jobs d jobID \<noteq> None \<Longrightarrow> fst (DeleteJob d jobID) = None \<and> jobs (snd (DeleteJob d jobID)) jobID = None"
  by (simp_all add: DeleteJob_def)

lemma RedisDB_DeleteJob_present:
  assumes "store srv (jobKey jobID) = Some v" "deadline srv (jobKey jobID) = None"
      and "store srv ''jobs'' = Some (RZSet z)" "deadline srv ''jobs'' = None"
      and "map_of z jobID = Some score"
  shows "fst (RedisDB_DeleteJob NetOk now jobID srv) = None
       \<and> store (snd (RedisDB_DeleteJob NetOk now jobID srv)) (jobKey jobID) = None
       \<and> (case store (snd (RedisDB_DeleteJob NetOk now jobID srv)) ''jobs'' of
             None \<Rightarrow> True
           | Some (RZSet z') \<Rightarrow> map_of z' jobID = None
           | Some other \<Rightarrow> False)"
proof -
  have k: "jobKey jobID \<noteq> ''jobs''" by (simp add: jobKey_def)
  have f: "map_of (filter (\<lambda>e. fst e \<noteq> jobID) z) jobID = None"
    by (induction z) auto
  show ?thesis
    using assms k f
    by (simp add: RedisDB_DeleteJob_def roundtrip_def redis_DEL_def redis_ZREM_def expire_key_def Let_def)
qed

text \<open>
  Claim C4.  The volatile store does as claimed (\<open>DeleteJob_volatile\<close>), and the durable
  store removes the record and its index entry when both are there
  (\<open>RedisDB_DeleteJob_present\<close>).  The durable store does not check that the record exists:
  deleting an id that is not there sends \<open>DEL\<close> and \<open>ZREM\<close>, both answer 0, and
  \<open>DeleteJob\<close> returns no error.
\<close>

theorem RedisDB_DeleteJob_absent_succeeds:
  "RedisDB_DeleteJob NetOk now jobID redis_empty = (None, redis_empty)"
  by (simp add: RedisDB_DeleteJob_def roundtrip_def redis_DEL_def redis_ZREM_def expire_key_def
        redis_empty_def Let_def)

lemma GetJob_copy_fields_private:
  assumes "jobs d jobID = Some a" "a < next_addr h"
      and "GetJob d h jobID = Returns (Inr copiedJob, h1)"
      and "assign_Job h1 copiedJob f = Returns h2"
  shows "copiedJob \<noteq> a \<and> jobs_at h2 a = jobs_at h a \<and> jobs_at h1 copiedJob = jobs_at h a"
  using assms
  by (auto simp: GetJob_def new_Job_def assign_Job_def split: option.splits)

text \<open>
  Claim C8.  \<open>GetJob\<close> copies the \<open>Job\<close> struct, so assignments to the fields of the returned
  job do not reach the store (\<open>GetJob_copy_fields_private\<close>).  The copy is shallow: its
  \<open>Metadata\<close> pointer is the stored one.  Below, a caller gets job \<open>j1\<close> and assigns to
  \<open>job.Metadata.Title\<close>; the title the store holds for \<open>j1\<close> changes, and no \<open>UpdateJob\<close> was
  called.
\<close>

theorem GetJob_copy_shares_Metadata:
  "(case GetJob song_db song_heap ''j1'' of
      Returns (Inr copiedJob, h) \<Rightarrow>
        (case assign_Metadata h copiedJob (\<lambda>m. m\<lparr> Title := ''changed'' \<rparr>) of
           Returns h' \<Rightarrow>
             jobs song_db ''j1'' \<noteq> Some copiedJob
             \<and> stored_title song_db h ''j1'' = Some ''Song''
             \<and> stored_title song_db h' ''j1'' = Some ''changed''
         | Panics p \<Rightarrow> False)
    | Returns (Inl e, h) \<Rightarrow> False
    | Panics p \<Rightarrow> False)"
  by (simp add: GetJob_def song_db_def song_heap_def new_Job_def assign_Metadata_def
        stored_title_def stored_view_def deep_view_def)

section \<open>Submission\<close>

lemma handleExtract_no_Allow:
  "\<not> list_ex is_Allow (snd (snd (handleExtract w r jobID now pick)))"
  by (auto simp: handleExtract_def Let_def new_Job_def
           split: if_splits option.splits outcome.splits prod.splits)

lemma handleExtract_reaches_CreateJob:
  assumes "Method r = ''POST''" "BodyJSON r = Some req" "URL req \<noteq> []"
  shows "\<exists>e rest. snd (snd (handleExtract w r jobID now pick))
                    = CallCreateJob jobID JobStatusPending e # rest"
  using assms
  by (auto simp: handleExtract_def Let_def new_Job_def CreateJob_def assign_Job_def
           split: if_splits option.splits outcome.splits prod.splits)

lemma throttled_quota: "RateLimitRPM (LoadConfig id throttled_env) = 2"
  by (simp add: LoadConfig_def throttled_env_def Atoi_def is_digit_def)

lemma limiter_three:
  assumes q: "RateLimitRPM c = 2"
  shows "fst (Allow_run (NewRateLimiter c None) srv [(ip, 0), (ip, Second), (ip, 2 * Second)])
         = [(True, 1), (True, 0), (False, - 1)]"
proof -
  let ?r0 = "NewRateLimiter c None"
  let ?r1 = "?r0\<lparr> inMemCount := Map.empty(ip \<mapsto> 1), inMemTTL := 0 \<rparr>"
  let ?r2 = "?r1\<lparr> inMemCount := (inMemCount ?r1)(ip \<mapsto> 2) \<rparr>"
  let ?r3 = "?r2\<lparr> inMemCount := (inMemCount ?r2)(ip \<mapsto> 3) \<rparr>"
  have c0: "RateLimiter.cfg ?r0 = c" "redis ?r0 = None" "inMemTTL ?r0 = zeroTime"
    by (simp_all add: NewRateLimiter_def)
  have a1: "Allow ?r0 srv NetOk NetOk ip 0 = ((True, 1), ?r1, srv)"
    by (simp add: Allow_volatile c0 q allowInMem_reset zeroTime_def Second_def)
  have a2: "Allow ?r1 srv NetOk NetOk ip Second = ((True, 0), ?r2, srv)"
    by (simp add: Allow_volatile c0 q allowInMem_same_window count_of_def Second_def)
  have a3: "Allow ?r2 srv NetOk NetOk ip (2 * Second) = ((False, - 1), ?r3, srv)"
    by (simp add: Allow_volatile c0 q allowInMem_same_window count_of_def Second_def)
  show ?thesis
    by (simp only: Allow_run.simps a1 a2 a3 Let_def prod.case fst_conv)
qed

lemma serve_three:
  "map (map_outcome StatusCode) (fst (serve throttled_world three_posts))
     = [Returns 200, Returns 200, Returns 200]"
  "snd (snd (serve throttled_world three_posts))
     = [CallCreateJob ''j1'' JobStatusPending None, CallPublish ''j1'' None,
        CallCreateJob ''j2'' JobStatusPending None, CallPublish ''j2'' None,
        CallCreateJob ''j3'' JobStatusPending None, CallPublish ''j3'' None]"
  by (simp_all add: three_posts_def throttled_world_def fresh_world_def run_request_def
        handleExtract_def new_Job_def heap_empty_def CreateJob_def NewInMemoryDB_def
        Publish_def ready_cases_def can_send_def can_recv_def)

text \<open>
  Claim C2.  The code does not do as claimed.  The repository has the limiter
  (\<open>RateLimiter.Allow\<close>) and loads its quota (\<open>RATE_LIMIT_RPM\<close>, \<open>RateLimitRPM\<close>), but
  \<open>handleExtract\<close> never consults it: no execution of it calls \<open>Allow\<close>
  (\<open>handleExtract_no_Allow\<close>), and every POST whose body decodes to a non-empty URL goes on to
  \<open>CreateJob\<close> (\<open>handleExtract_reaches_CreateJob\<close>).  Below, the quota is 2 and three
  submissions arrive within three seconds.  \<open>handleExtract\<close> reads the method and the body of a
  request and nothing else, so it makes no difference who sent them.  The limiter, asked
  about one client at these three times, allows two calls and refuses the third; the gateway
  answers 200 to all three and creates and publishes three jobs, without a call of \<open>Allow\<close>.
\<close>

theorem three_submissions_exceed_quota:
  "RateLimitRPM (cfg throttled_world) = 2
   \<and> fst (Allow_run (NewRateLimiter (cfg throttled_world) None) redis_empty
            [(''10.0.0.1'', 0), (''10.0.0.1'', Second), (''10.0.0.1'', 2 * Second)])
       = [(True, 1), (True, 0), (False, - 1)]
   \<and> map (map_outcome StatusCode) (fst (serve throttled_world three_posts))
       = [Returns 200, Returns 200, Returns 200]
   \<and> snd (snd (serve throttled_world three_posts))
       = [CallCreateJob ''j1'' JobStatusPending None, CallPublish ''j1'' None,
          CallCreateJob ''j2'' JobStatusPending None, CallPublish ''j2'' None,
          CallCreateJob ''j3'' JobStatusPending None, CallPublish ''j3'' None]
   \<and> \<not> list_ex is_Allow (snd (snd (serve throttled_world three_posts)))
   \<and> \<not> allow_before_create False (snd (snd (serve throttled_world three_posts)))"
proof -
  have q: "RateLimitRPM (cfg throttled_world) = 2"
    by (simp add: throttled_world_def throttled_quota)
  note l = limiter_three [OF q, of redis_empty "''10.0.0.1''"]
  show ?thesis
    by (simp only: q l serve_three) simp
qed

text \<open>
  Claim C1 as stated fails: when the queue is full the gateway writes \<open>Pending\<close> and then
  \<open>Failed\<close> for the job, which never was \<open>Processing\<close>.
\<close>

theorem handleExtract_full_queue_counterexample:
  "snd (snd (handleExtract full_queue_world \<lparr> Method = ''POST'', BodyJSON = Some \<lparr> URL = ''https://youtu.be/x'' \<rparr> \<rparr>
            ''j1'' 0 0))
     = [CallCreateJob ''j1'' JobStatusPending None, CallPublish ''j1'' (Some (QueueFull ''j1'')),
        CallUpdateJob ''j1'' JobStatusFailed None]
   \<and> written ''j1'' (snd (snd (handleExtract full_queue_world
            \<lparr> Method = ''POST'', BodyJSON = Some \<lparr> URL = ''https://youtu.be/x'' \<rparr> \<rparr> ''j1'' 0 0)))
     = [JobStatusPending, JobStatusFailed]
   \<and> \<not> lifecycle_prefix (written ''j1'' (snd (snd (handleExtract full_queue_world
            \<lparr> Method = ''POST'', BodyJSON = Some \<lparr> URL = ''https://youtu.be/x'' \<rparr> \<rparr> ''j1'' 0 0))))"
  by (simp add: handleExtract_def full_queue_world_def new_Job_def heap_empty_def CreateJob_def
        NewInMemoryDB_def Publish_def ready_cases_def can_send_def can_recv_def assign_Job_def
        UpdateJob_def lifecycle_prefix_def)

section \<open>The system\<close>

subsection \<open>The semaphore\<close>

lemma start_slots: "start_system c = Returns s \<Longrightarrow> slots_inv c s"
  by (auto simp: start_system_def NewInMemoryQueue_def make_chan_def slots_inv_def
           split: outcome.splits if_splits)

lemma step_slots: "step s s' \<Longrightarrow> slots_inv c s \<Longrightarrow> slots_inv c s'"
proof (induction rule: step.induct)
  case (release i s m tok toks)
  then show ?case by (auto simp: slots_inv_def)
qed (auto simp: slots_inv_def)

lemma reachable_slots:
  "step\<^sup>*\<^sup>* s0 s \<Longrightarrow> slots_inv c s0 \<Longrightarrow> slots_inv c s"
  by (induction rule: rtranclp_induct) (auto intro: step_slots)

subsection \<open>What the handlers do to the heap, the store and the queue\<close>

lemma heap_wfD: "heap_wf h \<Longrightarrow> jobs_at h a = Some j \<Longrightarrow> a < next_addr h"
  by (auto simp: heap_wf_def)

lemma written_append: "written i (xs @ ys) = written i xs @ written i ys"
  by (induction i xs rule: written.induct) auto

lemma job_calls_append: "job_calls i (xs @ ys) = job_calls i xs @ job_calls i ys"
  by (induction i xs rule: job_calls.induct) auto

lemma written_job_calls: "written i (job_calls i cs) = written i cs"
proof (induction i cs rule: job_calls.induct)
  case (6 i i' st e calls)
  then show ?case by (cases e) auto
qed auto

lemma publish_job_calls: "CallPublish i e \<in> set (job_calls i cs) \<longleftrightarrow> CallPublish i e \<in> set cs"
  by (induction i cs rule: job_calls.induct) auto

lemma path_facts:
  assumes "job_path i (job_calls i cs)"
  shows "written i cs = [] \<Longrightarrow> job_calls i cs = []"
    and "written i cs = [JobStatusPending] \<Longrightarrow> CallPublish i None \<in> set cs
         \<Longrightarrow> job_calls i cs = [CallCreateJob i JobStatusPending None, CallPublish i None]"
    and "written i cs = [JobStatusPending, JobStatusProcessing]
         \<Longrightarrow> job_calls i cs = [CallCreateJob i JobStatusPending None, CallPublish i None,
                                CallUpdateJob i JobStatusProcessing None]"
proof -
  note w = written_job_calls [of i cs] and p = publish_job_calls [of i None cs]
  show "written i cs = [] \<Longrightarrow> job_calls i cs = []"
    using assms w by (auto simp: job_path_def processed_path_def rejected_path_def)
  show "written i cs = [JobStatusPending] \<Longrightarrow> CallPublish i None \<in> set cs
         \<Longrightarrow> job_calls i cs = [CallCreateJob i JobStatusPending None, CallPublish i None]"
    using assms w p by (auto simp: job_path_def processed_path_def rejected_path_def)
  show "written i cs = [JobStatusPending, JobStatusProcessing]
         \<Longrightarrow> job_calls i cs = [CallCreateJob i JobStatusPending None, CallPublish i None,
                                CallUpdateJob i JobStatusProcessing None]"
    using assms w by (auto simp: job_path_def processed_path_def rejected_path_def)
qed

lemma path_statuses:
  assumes "job_path i (job_calls i cs)"
  shows "(job_calls i cs \<in> set (processed_path i) \<and> lifecycle_prefix (written i cs))
       \<or> (job_calls i cs \<in> set (rejected_path i)
           \<and> written i cs = [JobStatusPending, JobStatusFailed])"
  using assms written_job_calls [of i cs]
  by (auto simp: job_path_def processed_path_def rejected_path_def lifecycle_prefix_def)

lemma published_path:
  assumes "job_path i (job_calls i cs)" "CallPublish i None \<in> set cs"
  shows "job_calls i cs \<in> set (processed_path i)"
  using assms publish_job_calls [of i None cs]
  by (auto simp: job_path_def rejected_path_def)

lemma heap_grows_wf: "heap_grows h h' \<Longrightarrow> heap_wf h'"
  by (auto simp: heap_grows_def heap_wf_def)

lemma heap_grows_refl: "heap_wf h \<Longrightarrow> heap_grows h h"
  by (auto simp: heap_grows_def heap_wf_def)

lemma heap_grows_alloc:
  assumes "heap_wf h" "next_addr h \<le> n" "n < next_addr h'"
      and "\<And>a. a \<noteq> n \<Longrightarrow> jobs_at h' a = jobs_at h a"
  shows "heap_grows h h'"
  unfolding heap_grows_def
proof (intro conjI allI impI)
  show "next_addr h \<le> next_addr h'" using assms(2,3) by simp
next
  fix a assume "a < next_addr h"
  with assms(2) have "a \<noteq> n" by simp
  then show "jobs_at h' a = jobs_at h a" by (rule assms(4))
next
  fix a j assume j: "jobs_at h' a = Some j"
  show "a < next_addr h'"
  proof (cases "a = n")
    case True
    with assms(3) show ?thesis by simp
  next
    case False
    with j assms(4) have "jobs_at h a = Some j" by simp
    with assms(1) have "a < next_addr h" by (rule heap_wfD)
    with assms(2,3) show ?thesis by simp
  qed
qed

lemma handleExtract_heap_shape:
  assumes "handleExtract w r jobID now pick = (resp, w', calls)"
  shows "(next_addr (hp w') = next_addr (hp w) \<and> jobs_at (hp w') = jobs_at (hp w))
       \<or> (next_addr (hp w') = Suc (next_addr (hp w))
           \<and> (\<forall>a. a \<noteq> next_addr (hp w) \<longrightarrow> jobs_at (hp w') a = jobs_at (hp w) a))"
  using assms
  by (auto simp: handleExtract_def Let_def new_Job_def CreateJob_def UpdateJob_def assign_Job_def
           split: if_splits option.splits outcome.splits prod.splits)

lemma handleExtract_heap:
  assumes "handleExtract w r jobID now pick = (resp, w', calls)" "heap_wf (hp w)"
  shows "heap_grows (hp w) (hp w')"
  using handleExtract_heap_shape [OF assms(1)]
proof
  assume "next_addr (hp w') = next_addr (hp w) \<and> jobs_at (hp w') = jobs_at (hp w)"
  with assms(2) show ?thesis by (auto simp: heap_grows_def heap_wf_def)
next
  assume a: "next_addr (hp w') = Suc (next_addr (hp w))
           \<and> (\<forall>a. a \<noteq> next_addr (hp w) \<longrightarrow> jobs_at (hp w') a = jobs_at (hp w) a)"
  show ?thesis
    by (rule heap_grows_alloc [OF assms(2), of "next_addr (hp w)"]) (use a in auto)
qed

lemma handleExtract_store:
  assumes "handleExtract w r jobID now pick = (resp, w', calls)"
  shows "(jobs (db w') = jobs (db w) \<and> buf (queue (mq w')) = buf (queue (mq w))
            \<and> (\<forall>i. written i calls = []))
          \<or> (jobs (db w) jobID = None
              \<and> jobs (db w') = (jobs (db w))(jobID \<mapsto> next_addr (hp w))
              \<and> (\<exists>j. jobs_at (hp w') (next_addr (hp w)) = Some j \<and> ID j = jobID)
              \<and> (\<forall>i. i \<noteq> jobID \<longrightarrow> written i calls = [])
              \<and> ((buf (queue (mq w')) = buf (queue (mq w))
                   \<and> (written jobID calls = [JobStatusPending]
                       \<or> written jobID calls = [JobStatusPending, JobStatusFailed]))
                 \<or> (\<exists>m. buf (queue (mq w')) = buf (queue (mq w)) @ [m] \<and> JobID m = jobID
                        \<and> written jobID calls = [JobStatusPending])))"
  using assms
  by (auto simp: handleExtract_def Let_def new_Job_def CreateJob_def UpdateJob_def assign_Job_def
                 Publish_def
           split: if_splits option.splits outcome.splits prod.splits select_case.splits)

lemma handleExtract_calls:
  assumes "handleExtract w r jobID now pick = (resp, w', calls)"
  shows "(buf (queue (mq w')) = buf (queue (mq w)) \<and> (\<forall>i. job_calls i calls = []))
       \<or> (jobs (db w) jobID = None \<and> (\<forall>i. i \<noteq> jobID \<longrightarrow> job_calls i calls = [])
           \<and> ((buf (queue (mq w')) = buf (queue (mq w))
                 \<and> (job_calls jobID calls = [CallCreateJob jobID JobStatusPending None]
                    \<or> job_calls jobID calls \<in> set (rejected_path jobID)))
              \<or> (\<exists>m. buf (queue (mq w')) = buf (queue (mq w)) @ [m] \<and> JobID m = jobID
                    \<and> calls = [CallCreateJob jobID JobStatusPending None, CallPublish jobID None])))"
  using assms
  by (auto simp: handleExtract_def Let_def new_Job_def CreateJob_def UpdateJob_def assign_Job_def
                 Publish_def rejected_path_def
           split: if_splits option.splits outcome.splits prod.splits select_case.splits)

lemma begin_missing:
  assumes "processJob_begin w m now = (Returns found, w', calls)" "jobs (db w) (JobID m) = None"
  shows "found = None \<and> w' = w \<and> calls = []"
  using assms by (auto simp: processJob_begin_def GetJob_def)

lemma begin_found_shape:
  assumes "processJob_begin w m now = (Returns found, w', calls)"
      and "jobs (db w) (JobID m) = Some a" "jobs_at (hp w) a = Some j" "ID j = JobID m"
  shows "found = Some (next_addr (hp w))
       \<and> next_addr (hp w') = Suc (Suc (next_addr (hp w)))
       \<and> (\<forall>b. b \<noteq> next_addr (hp w) \<longrightarrow> jobs_at (hp w') b = jobs_at (hp w) b)
       \<and> (\<exists>j'. jobs_at (hp w') (next_addr (hp w)) = Some j' \<and> ID j' = JobID m)
       \<and> jobs (db w') = (jobs (db w))(JobID m \<mapsto> next_addr (hp w))
       \<and> calls = [CallUpdateJob (JobID m) JobStatusProcessing None]
       \<and> mq w' = mq w"
  using assms
  by (auto simp: processJob_begin_def GetJob_def new_Job_def new_Time_def assign_Job_def
                 update_call_def UpdateJob_def Let_def
           split: option.splits outcome.splits prod.splits if_splits)

lemma begin_found:
  assumes "processJob_begin w m now = (Returns found, w', calls)" "heap_wf (hp w)"
      and "jobs (db w) (JobID m) = Some a" "jobs_at (hp w) a = Some j" "ID j = JobID m"
  shows "found = Some (next_addr (hp w))
       \<and> heap_grows (hp w) (hp w')
       \<and> (\<exists>j'. jobs_at (hp w') (next_addr (hp w)) = Some j' \<and> ID j' = JobID m)
       \<and> jobs (db w') = (jobs (db w))(JobID m \<mapsto> next_addr (hp w))
       \<and> calls = [CallUpdateJob (JobID m) JobStatusProcessing None]
       \<and> mq w' = mq w"
proof -
  note s = begin_found_shape [OF assms(1,3,4,5)]
  have "heap_grows (hp w) (hp w')"
    by (rule heap_grows_alloc [OF assms(2), of "next_addr (hp w)"]) (use s in auto)
  with s show ?thesis by blast
qed

lemma end_shape:
  assumes "processJob_end w m job yt ff now = (Returns u, w', calls)"
      and "jobs_at (hp w) job = Some j" "ID j = JobID m" "jobs (db w) (JobID m) \<noteq> None"
  shows "next_addr (hp w) \<le> next_addr (hp w')
       \<and> (\<forall>b. b \<noteq> job \<longrightarrow> jobs_at (hp w') b = jobs_at (hp w) b)
       \<and> (\<exists>j'. jobs_at (hp w') job = Some j' \<and> ID j' = JobID m)
       \<and> jobs (db w') = (jobs (db w))(JobID m \<mapsto> job)
       \<and> mq w' = mq w
       \<and> (calls = [CallUpdateJob (JobID m) JobStatusCompleted None]
          \<or> calls = [CallUpdateJob (JobID m) JobStatusFailed None])"
  using assms
  by (auto simp: processJob_end_def handleJobFailure_def new_Metadata_def new_Time_def
                 assign_Job_def update_call_def UpdateJob_def Let_def
           split: sum.splits option.splits outcome.splits prod.splits if_splits)

lemma inflight_cases:
  assumes "i \<in> set (inflight_ids s)"
  shows "(\<exists>m. JobID m = i \<and> (m \<in> set (buf (queue (mq (world s)))) \<or> received s = Some m
                         \<or> (m, Starting) \<in> set (goroutines s)))
     \<or> (\<exists>m a. JobID m = i \<and> (m, Executing a) \<in> set (goroutines s))"
proof -
  from assms consider "i \<in> JobID ` set (buf (queue (mq (world s))))"
    | "i \<in> set (case received s of None \<Rightarrow> [] | Some m \<Rightarrow> [JobID m])"
    | "i \<in> (\<lambda>g. JobID (fst g)) ` {g \<in> set (goroutines s). snd g \<noteq> Releasing}"
    unfolding inflight_ids_def by auto
  then show ?thesis
  proof cases
    case 1
    then show ?thesis by auto
  next
    case 2
    then show ?thesis by (cases "received s") auto
  next
    case 3
    then obtain m ph where "(m, ph) \<in> set (goroutines s)" "ph \<noteq> Releasing" "i = JobID m"
      by auto
    then show ?thesis by (cases ph) auto
  qed
qed

lemma sys_invD:
  assumes "sys_inv s"
  shows "heap_wf (hp (world s))"
    and "\<And>i a. jobs (db (world s)) i = Some a \<Longrightarrow> \<exists>j. jobs_at (hp (world s)) a = Some j \<and> ID j = i"
    and "\<And>i. (jobs (db (world s)) i = None) = (written i (journal s) = [])"
    and "\<And>i. lifecycle (written i (journal s))"
    and "distinct (inflight_ids s)"
    and "\<And>m. m \<in> set (buf (queue (mq (world s)))) \<or> received s = Some m \<or> (m, Starting) \<in> set (goroutines s)
            \<Longrightarrow> written (JobID m) (journal s) = [JobStatusPending]"
    and "\<And>m a. (m, Executing a) \<in> set (goroutines s)
            \<Longrightarrow> written (JobID m) (journal s) = [JobStatusPending, JobStatusProcessing]
                \<and> (\<exists>j. jobs_at (hp (world s)) a = Some j \<and> ID j = JobID m)"
proof -
  have a: "heap_wf (hp (world s))
     \<and> (\<forall>i a. jobs (db (world s)) i = Some a \<longrightarrow> (\<exists>j. jobs_at (hp (world s)) a = Some j \<and> ID j = i))
     \<and> (\<forall>i. (jobs (db (world s)) i = None) = (written i (journal s) = []))
     \<and> (\<forall>i. lifecycle (written i (journal s)))
     \<and> distinct (inflight_ids s)
     \<and> (\<forall>m. m \<in> set (buf (queue (mq (world s)))) \<or> received s = Some m \<or> (m, Starting) \<in> set (goroutines s)
            \<longrightarrow> written (JobID m) (journal s) = [JobStatusPending])
     \<and> (\<forall>m a. (m, Executing a) \<in> set (goroutines s)
            \<longrightarrow> written (JobID m) (journal s) = [JobStatusPending, JobStatusProcessing]
                \<and> (\<exists>j. jobs_at (hp (world s)) a = Some j \<and> ID j = JobID m))"
    using assms unfolding sys_inv_def by blast
  from a show "heap_wf (hp (world s))" by (elim conjE)
  from a show "\<And>i a. jobs (db (world s)) i = Some a \<Longrightarrow> \<exists>j. jobs_at (hp (world s)) a = Some j \<and> ID j = i"
    by (elim conjE) (erule allE, erule allE, erule (1) mp)
  from a show "\<And>i. (jobs (db (world s)) i = None) = (written i (journal s) = [])"
    by (elim conjE) (erule allE, assumption)
  from a show "\<And>i. lifecycle (written i (journal s))"
    by (elim conjE) (erule allE, assumption)
  from a show "distinct (inflight_ids s)" by (elim conjE)
  from a show "\<And>m. m \<in> set (buf (queue (mq (world s)))) \<or> received s = Some m \<or> (m, Starting) \<in> set (goroutines s)
            \<Longrightarrow> written (JobID m) (journal s) = [JobStatusPending]"
    by (elim conjE) (erule allE, erule (1) mp)
  from a show "\<And>m a. (m, Executing a) \<in> set (goroutines s)
            \<Longrightarrow> written (JobID m) (journal s) = [JobStatusPending, JobStatusProcessing]
                \<and> (\<exists>j. jobs_at (hp (world s)) a = Some j \<and> ID j = JobID m)"
    by (elim conjE) (erule allE, erule allE, erule (1) mp)
qed

lemma sys_invI:
  assumes "heap_wf (hp (world s))"
    and "\<And>i a. jobs (db (world s)) i = Some a \<Longrightarrow> \<exists>j. jobs_at (hp (world s)) a = Some j \<and> ID j = i"
    and "\<And>i. (jobs (db (world s)) i = None) = (written i (journal s) = [])"
    and "\<And>i. lifecycle (written i (journal s))"
    and "distinct (inflight_ids s)"
    and "\<And>m. m \<in> set (buf (queue (mq (world s)))) \<or> received s = Some m \<or> (m, Starting) \<in> set (goroutines s)
            \<Longrightarrow> written (JobID m) (journal s) = [JobStatusPending]"
    and "\<And>m a. (m, Executing a) \<in> set (goroutines s)
            \<Longrightarrow> written (JobID m) (journal s) = [JobStatusPending, JobStatusProcessing]
                \<and> (\<exists>j. jobs_at (hp (world s)) a = Some j \<and> ID j = JobID m)"
  shows "sys_inv s"
  unfolding sys_inv_def using assms by blast

lemma inflight_written:
  assumes "sys_inv s" "i \<in> set (inflight_ids s)"
  shows "written i (journal s) \<noteq> []"
proof -
  from inflight_cases [OF assms(2)]
  have "written i (journal s) = [JobStatusPending]
      \<or> written i (journal s) = [JobStatusPending, JobStatusProcessing]"
    using sys_invD(6,7) [OF assms(1)] by blast
  then show ?thesis by auto
qed

lemma lifecycle_simps:
  "lifecycle [JobStatusPending]" "lifecycle [JobStatusPending, JobStatusFailed]"
  "lifecycle [JobStatusPending, JobStatusProcessing]"
  "lifecycle [JobStatusPending, JobStatusProcessing, JobStatusCompleted]"
  "lifecycle [JobStatusPending, JobStatusProcessing, JobStatusFailed]" "lifecycle []"
  by (simp_all add: lifecycle_def lifecycle_prefix_def)

lemma inv_submit_quiet:
  assumes inv: "sys_inv s" and grow: "heap_grows (hp (world s)) (hp w')"
      and quiet: "jobs (db w') = jobs (db (world s))" "buf (queue (mq w')) = buf (queue (mq (world s)))"
       "\<And>i. written i calls = []"
  shows "sys_inv (s\<lparr> world := w', journal := journal s @ calls \<rparr>)"
proof -
  let ?w = "world s" and ?J = "journal s"
  let ?s' = "s\<lparr> world := w', journal := journal s @ calls \<rparr>"
  note I = sys_invD [OF inv]
  note wf = I(1) and idb = I(2) and idom = I(3) and ilife = I(4) and iids = I(5)
    and ipend = I(6) and iexec = I(7)
  have wf': "heap_wf (hp w')" using grow by (rule heap_grows_wf)
  have old: "jobs_at (hp w') a = Some j" if "jobs_at (hp ?w) a = Some j" for a j
    using grow that heap_wfD [OF wf that] by (simp add: heap_grows_def)
  have ids: "inflight_ids ?s' = inflight_ids s"
    by (simp add: inflight_ids_def quiet(2))
  show ?thesis
  proof (rule sys_invI)
    show "heap_wf (hp (world ?s'))" using wf' by simp
  next
    fix i a assume "jobs (db (world ?s')) i = Some a"
    then show "\<exists>j. jobs_at (hp (world ?s')) a = Some j \<and> ID j = i"
      using idb [of i a] old by (auto simp: quiet(1))
  next
    fix i show "(jobs (db (world ?s')) i = None) = (written i (journal ?s') = [])"
      using idom [of i] by (simp add: quiet written_append)
  next
    fix i show "lifecycle (written i (journal ?s'))"
      using ilife [of i] by (simp add: quiet written_append)
  next
    show "distinct (inflight_ids ?s')" using iids ids by simp
  next
    fix m assume "m \<in> set (buf (queue (mq (world ?s')))) \<or> received ?s' = Some m
                 \<or> (m, Starting) \<in> set (goroutines ?s')"
    then show "written (JobID m) (journal ?s') = [JobStatusPending]"
      using ipend [of m] by (simp add: quiet written_append)
  next
    fix m a assume "(m, Executing a) \<in> set (goroutines ?s')"
    then show "written (JobID m) (journal ?s') = [JobStatusPending, JobStatusProcessing]
              \<and> (\<exists>j. jobs_at (hp (world ?s')) a = Some j \<and> ID j = JobID m)"
      using iexec [of m a] old by (auto simp: quiet written_append)
  qed
qed

lemma inv_submit_failed:
  assumes inv: "sys_inv s" and grow: "heap_grows (hp (world s)) (hp w')"
      and failed: "jobs (db (world s)) jobID = None"
       "jobs (db w') = (jobs (db (world s)))(jobID \<mapsto> next_addr (hp (world s)))"
       "\<exists>j. jobs_at (hp w') (next_addr (hp (world s))) = Some j \<and> ID j = jobID"
       "\<And>i. i \<noteq> jobID \<Longrightarrow> written i calls = []"
       "buf (queue (mq w')) = buf (queue (mq (world s)))"
       "written jobID calls = [JobStatusPending] \<or> written jobID calls = [JobStatusPending, JobStatusFailed]"
  shows "sys_inv (s\<lparr> world := w', journal := journal s @ calls \<rparr>)"
proof -
  let ?w = "world s" and ?J = "journal s"
  let ?s' = "s\<lparr> world := w', journal := journal s @ calls \<rparr>"
  note I = sys_invD [OF inv]
  note wf = I(1) and idb = I(2) and idom = I(3) and ilife = I(4) and iids = I(5)
    and ipend = I(6) and iexec = I(7)
  have wf': "heap_wf (hp w')" using grow by (rule heap_grows_wf)
  have old: "jobs_at (hp w') a = Some j" if "jobs_at (hp ?w) a = Some j" for a j
    using grow that heap_wfD [OF wf that] by (simp add: heap_grows_def)
  have fresh: "written jobID ?J = []" using idom failed(1) by simp
  have ne: "i \<noteq> jobID" if "written i ?J \<noteq> []" for i using fresh that by auto
  have ids: "inflight_ids ?s' = inflight_ids s"
    by (simp add: inflight_ids_def failed(5))
  have w_other: "written i (?J @ calls) = written i ?J" if "i \<noteq> jobID" for i
    using failed(4) [OF that] by (simp add: written_append)
  have w_new: "written jobID (?J @ calls) = [JobStatusPending]
             \<or> written jobID (?J @ calls) = [JobStatusPending, JobStatusFailed]"
    using failed(6) fresh by (simp add: written_append)
  show ?thesis
  proof (rule sys_invI)
    show "heap_wf (hp (world ?s'))" using wf' by simp
  next
    fix i a assume ia: "jobs (db (world ?s')) i = Some a"
    show "\<exists>j. jobs_at (hp (world ?s')) a = Some j \<and> ID j = i"
    proof (cases "i = jobID")
      case True
      with ia failed(2) have "a = next_addr (hp ?w)" by simp
      with failed(3) True show ?thesis by simp
    next
      case False
      with ia failed(2) have "jobs (db ?w) i = Some a" by simp
      from idb [OF this] obtain j where "jobs_at (hp ?w) a = Some j" "ID j = i" by blast
      with old [of a j] show ?thesis by simp
    qed
  next
    fix i show "(jobs (db (world ?s')) i = None) = (written i (journal ?s') = [])"
      using failed(2) idom w_other w_new by (cases "i = jobID") auto
  next
    fix i show "lifecycle (written i (journal ?s'))"
      using w_other w_new ilife lifecycle_simps by (cases "i = jobID") auto
  next
    show "distinct (inflight_ids ?s')" using iids ids by simp
  next
    fix m assume "m \<in> set (buf (queue (mq (world ?s')))) \<or> received ?s' = Some m
                 \<or> (m, Starting) \<in> set (goroutines ?s')"
    then have p: "written (JobID m) ?J = [JobStatusPending]" using ipend failed(5) by simp
    then have "JobID m \<noteq> jobID" using ne by simp
    with p show "written (JobID m) (journal ?s') = [JobStatusPending]" by (simp add: w_other)
  next
    fix m a assume "(m, Executing a) \<in> set (goroutines ?s')"
    then have e: "written (JobID m) ?J = [JobStatusPending, JobStatusProcessing]
              \<and> (\<exists>j. jobs_at (hp ?w) a = Some j \<and> ID j = JobID m)" using iexec by simp
    then have "JobID m \<noteq> jobID" using ne by simp
    with e old show "written (JobID m) (journal ?s') = [JobStatusPending, JobStatusProcessing]
              \<and> (\<exists>j. jobs_at (hp (world ?s')) a = Some j \<and> ID j = JobID m)"
      by (auto simp: w_other)
  qed
qed

lemma inv_submit_queued:
  assumes inv: "sys_inv s" and grow: "heap_grows (hp (world s)) (hp w')"
      and queued: "jobs (db (world s)) jobID = None"
       "jobs (db w') = (jobs (db (world s)))(jobID \<mapsto> next_addr (hp (world s)))"
       "\<exists>j. jobs_at (hp w') (next_addr (hp (world s))) = Some j \<and> ID j = jobID"
       "\<And>i. i \<noteq> jobID \<Longrightarrow> written i calls = []"
       "buf (queue (mq w')) = buf (queue (mq (world s))) @ [m]" "JobID m = jobID"
       "written jobID calls = [JobStatusPending]"
  shows "sys_inv (s\<lparr> world := w', journal := journal s @ calls \<rparr>)"
proof -
  let ?w = "world s" and ?J = "journal s"
  let ?s' = "s\<lparr> world := w', journal := journal s @ calls \<rparr>"
  note I = sys_invD [OF inv]
  note wf = I(1) and idb = I(2) and idom = I(3) and ilife = I(4) and iids = I(5)
    and ipend = I(6) and iexec = I(7)
  have wf': "heap_wf (hp w')" using grow by (rule heap_grows_wf)
  have old: "jobs_at (hp w') a = Some j" if "jobs_at (hp ?w) a = Some j" for a j
    using grow that heap_wfD [OF wf that] by (simp add: heap_grows_def)
  have fresh: "written jobID ?J = []" using idom queued(1) by simp
  have ne: "i \<noteq> jobID" if "written i ?J \<noteq> []" for i using fresh that by auto
  have notin: "jobID \<notin> set (inflight_ids s)"
    using inflight_written [OF inv] fresh by blast
  have ids: "inflight_ids ?s' =
               map JobID (buf (queue (mq ?w))) @ [jobID]
               @ (case received s of None \<Rightarrow> [] | Some m \<Rightarrow> [JobID m])
               @ map (\<lambda>g. JobID (fst g)) (filter (\<lambda>g. snd g \<noteq> Releasing) (goroutines s))"
    by (simp add: inflight_ids_def queued(5,6))
  have w_other: "written i (?J @ calls) = written i ?J" if "i \<noteq> jobID" for i
    using queued(4) [OF that] by (simp add: written_append)
  have w_new: "written jobID (?J @ calls) = [JobStatusPending]"
    using queued(7) fresh by (simp add: written_append)
  show ?thesis
  proof (rule sys_invI)
    show "heap_wf (hp (world ?s'))" using wf' by simp
  next
    fix i a assume ia: "jobs (db (world ?s')) i = Some a"
    show "\<exists>j. jobs_at (hp (world ?s')) a = Some j \<and> ID j = i"
    proof (cases "i = jobID")
      case True
      with ia queued(2) have "a = next_addr (hp ?w)" by simp
      with queued(3) True show ?thesis by simp
    next
      case False
      with ia queued(2) have "jobs (db ?w) i = Some a" by simp
      from idb [OF this] obtain j where "jobs_at (hp ?w) a = Some j" "ID j = i" by blast
      with old [of a j] show ?thesis by simp
    qed
  next
    fix i show "(jobs (db (world ?s')) i = None) = (written i (journal ?s') = [])"
      using queued(2) idom w_other w_new by (cases "i = jobID") auto
  next
    fix i show "lifecycle (written i (journal ?s'))"
      using w_other w_new ilife lifecycle_simps by (cases "i = jobID") auto
  next
    show "distinct (inflight_ids ?s')"
      using iids notin unfolding ids by (auto simp: inflight_ids_def)
  next
    fix m' assume a: "m' \<in> set (buf (queue (mq (world ?s')))) \<or> received ?s' = Some m'
                 \<or> (m', Starting) \<in> set (goroutines ?s')"
    show "written (JobID m') (journal ?s') = [JobStatusPending]"
    proof (cases "JobID m' = jobID")
      case True
      then show ?thesis using w_new by simp
    next
      case False
      with a queued(5,6) have "m' \<in> set (buf (queue (mq ?w))) \<or> received s = Some m'
                 \<or> (m', Starting) \<in> set (goroutines s)" by auto
      then have "written (JobID m') ?J = [JobStatusPending]" by (rule ipend)
      with False show ?thesis by (simp add: w_other)
    qed
  next
    fix m a assume "(m, Executing a) \<in> set (goroutines ?s')"
    then have e: "written (JobID m) ?J = [JobStatusPending, JobStatusProcessing]
              \<and> (\<exists>j. jobs_at (hp ?w) a = Some j \<and> ID j = JobID m)" using iexec by simp
    then have "JobID m \<noteq> jobID" using ne by simp
    with e old show "written (JobID m) (journal ?s') = [JobStatusPending, JobStatusProcessing]
              \<and> (\<exists>j. jobs_at (hp (world ?s')) a = Some j \<and> ID j = JobID m)"
      by (auto simp: w_other)
  qed
qed

lemma inv_submit:
  assumes inv: "sys_inv s"
      and he: "handleExtract (world s) r jobID now pick = (resp, w', calls)"
  shows "sys_inv (s\<lparr> world := w', journal := journal s @ calls \<rparr>)"
proof -
  have grow: "heap_grows (hp (world s)) (hp w')"
    by (rule handleExtract_heap [OF he sys_invD(1) [OF inv]])
  from handleExtract_store [OF he] show ?thesis
  proof (elim disjE conjE exE)
    assume "jobs (db w') = jobs (db (world s))" "buf (queue (mq w')) = buf (queue (mq (world s)))"
       "\<forall>i. written i calls = []"
    then show ?thesis by (intro inv_submit_quiet [OF inv grow]) auto
  next
    fix j
    assume "jobs (db (world s)) jobID = None"
       "jobs (db w') = (jobs (db (world s)))(jobID \<mapsto> next_addr (hp (world s)))"
       "jobs_at (hp w') (next_addr (hp (world s))) = Some j" "ID j = jobID"
       "\<forall>i. i \<noteq> jobID \<longrightarrow> written i calls = []"
       "buf (queue (mq w')) = buf (queue (mq (world s)))"
       "written jobID calls = [JobStatusPending]"
    then show ?thesis by (intro inv_submit_failed [OF inv grow, of jobID]) auto
  next
    fix j
    assume "jobs (db (world s)) jobID = None"
       "jobs (db w') = (jobs (db (world s)))(jobID \<mapsto> next_addr (hp (world s)))"
       "jobs_at (hp w') (next_addr (hp (world s))) = Some j" "ID j = jobID"
       "\<forall>i. i \<noteq> jobID \<longrightarrow> written i calls = []"
       "buf (queue (mq w')) = buf (queue (mq (world s)))"
       "written jobID calls = [JobStatusPending, JobStatusFailed]"
    then show ?thesis by (intro inv_submit_failed [OF inv grow, of jobID]) auto
  next
    fix j m
    assume "jobs (db (world s)) jobID = None"
       "jobs (db w') = (jobs (db (world s)))(jobID \<mapsto> next_addr (hp (world s)))"
       "jobs_at (hp w') (next_addr (hp (world s))) = Some j" "ID j = jobID"
       "\<forall>i. i \<noteq> jobID \<longrightarrow> written i calls = []"
       "buf (queue (mq w')) = buf (queue (mq (world s))) @ [m]" "JobID m = jobID"
       "written jobID calls = [JobStatusPending]"
    then show ?thesis by (intro inv_submit_queued [OF inv grow, of jobID _ m]) auto
  qed
qed

lemma Close_buf: "Close q = Returns q' \<Longrightarrow> buf (queue q') = buf (queue q)"
  by (auto simp: Close_def close_chan_def split: if_splits outcome.splits)

lemma inv_shutdown:
  assumes inv: "sys_inv s" and c: "Close (mq (world s)) = Returns q'"
  shows "sys_inv (s\<lparr> world := (world s)\<lparr> mq := q' \<rparr> \<rparr>)"
proof -
  note I = sys_invD [OF inv]
  have b: "buf (queue q') = buf (queue (mq (world s)))" by (rule Close_buf [OF c])
  show ?thesis
  proof (rule sys_invI)
    show "distinct (inflight_ids (s\<lparr> world := (world s)\<lparr> mq := q' \<rparr> \<rparr>))"
      using I(5) by (simp add: inflight_ids_def b)
  qed (use I b in auto)
qed

lemma inv_receive:
  assumes inv: "sys_inv s" and r: "received s = None" "buf (queue (mq (world s))) = m # ms"
  shows "sys_inv (s\<lparr> world := (world s)\<lparr> mq := (mq (world s))\<lparr> queue := (queue (mq (world s)))\<lparr> buf := ms \<rparr> \<rparr> \<rparr>,
                    received := Some m \<rparr>)"
proof -
  note I = sys_invD [OF inv]
  show ?thesis
  proof (rule sys_invI)
    show "distinct (inflight_ids (s\<lparr> world := (world s)\<lparr> mq := (mq (world s))\<lparr> queue := (queue (mq (world s)))\<lparr> buf := ms \<rparr> \<rparr> \<rparr>,
                    received := Some m \<rparr>))"
      using I(5) r by (auto simp: inflight_ids_def)
  next
    fix m' assume "m' \<in> set (buf (queue (mq (world (s\<lparr> world := (world s)\<lparr> mq := (mq (world s))\<lparr> queue := (queue (mq (world s)))\<lparr> buf := ms \<rparr> \<rparr> \<rparr>,
                    received := Some m \<rparr>))))) \<or>
          received (s\<lparr> world := (world s)\<lparr> mq := (mq (world s))\<lparr> queue := (queue (mq (world s)))\<lparr> buf := ms \<rparr> \<rparr> \<rparr>,
                    received := Some m \<rparr>) = Some m' \<or>
          (m', Starting) \<in> set (goroutines (s\<lparr> world := (world s)\<lparr> mq := (mq (world s))\<lparr> queue := (queue (mq (world s)))\<lparr> buf := ms \<rparr> \<rparr> \<rparr>,
                    received := Some m \<rparr>))"
    then have "m' \<in> set (buf (queue (mq (world s)))) \<or> (m', Starting) \<in> set (goroutines s)"
      using r by auto
    then show "written (JobID m') (journal (s\<lparr> world := (world s)\<lparr> mq := (mq (world s))\<lparr> queue := (queue (mq (world s)))\<lparr> buf := ms \<rparr> \<rparr> \<rparr>,
                    received := Some m \<rparr>)) = [JobStatusPending]"
      using I(6) [of m'] by auto
  qed (use I in auto)
qed

lemma inv_acquire:
  assumes inv: "sys_inv s" and r: "received s = Some m"
  shows "sys_inv (s\<lparr> workerLimiter := l', received := None, goroutines := goroutines s @ [(m, Starting)] \<rparr>)"
proof -
  note I = sys_invD [OF inv]
  let ?s' = "s\<lparr> workerLimiter := l', received := None, goroutines := goroutines s @ [(m, Starting)] \<rparr>"
  show ?thesis
  proof (rule sys_invI)
    show "distinct (inflight_ids ?s')"
      using I(5) r by (auto simp: inflight_ids_def)
  next
    fix m' assume "m' \<in> set (buf (queue (mq (world ?s')))) \<or> received ?s' = Some m'
       \<or> (m', Starting) \<in> set (goroutines ?s')"
    then have "m' \<in> set (buf (queue (mq (world s)))) \<or> received s = Some m' \<or> (m', Starting) \<in> set (goroutines s)"
      using r by auto
    then show "written (JobID m') (journal ?s') = [JobStatusPending]"
      using I(6) [of m'] by auto
  qed (use I in auto)
qed

lemma inv_release:
  assumes inv: "sys_inv s" and g: "goroutines s = L @ (m, Releasing) # R"
  shows "sys_inv (s\<lparr> workerLimiter := l', goroutines := L @ R \<rparr>)"
proof -
  note I = sys_invD [OF inv]
  let ?s' = "s\<lparr> workerLimiter := l', goroutines := L @ R \<rparr>"
  show ?thesis
  proof (rule sys_invI)
    show "distinct (inflight_ids ?s')"
      using I(5) g by (auto simp: inflight_ids_def)
  next
    fix m' assume "m' \<in> set (buf (queue (mq (world ?s')))) \<or> received ?s' = Some m'
       \<or> (m', Starting) \<in> set (goroutines ?s')"
    then have "m' \<in> set (buf (queue (mq (world s)))) \<or> received s = Some m' \<or> (m', Starting) \<in> set (goroutines s)"
      using g by auto
    then show "written (JobID m') (journal ?s') = [JobStatusPending]"
      using I(6) [of m'] by auto
  next
    fix m' a assume "(m', Executing a) \<in> set (goroutines ?s')"
    then have "(m', Executing a) \<in> set (goroutines s)" using g by auto
    then show "written (JobID m') (journal ?s') = [JobStatusPending, JobStatusProcessing]
                \<and> (\<exists>j. jobs_at (hp (world ?s')) a = Some j \<and> ID j = JobID m')"
      using I(7) [of m' a] by auto
  qed (use I in auto)
qed

lemma inflight_split:
  assumes "goroutines s = L @ (m, ph) # R" "ph \<noteq> Releasing"
  shows "inflight_ids s =
           map JobID (buf (queue (mq (world s))))
           @ (case received s of None \<Rightarrow> [] | Some m \<Rightarrow> [JobID m])
           @ map (\<lambda>g. JobID (fst g)) (filter (\<lambda>g. snd g \<noteq> Releasing) L)
           @ JobID m # map (\<lambda>g. JobID (fst g)) (filter (\<lambda>g. snd g \<noteq> Releasing) R)"
  using assms by (simp add: inflight_ids_def)

lemma inflight_others:
  assumes d: "distinct (inflight_ids s)" and g: "goroutines s = L @ (m, ph) # R" "ph \<noteq> Releasing"
  shows "\<And>m'. m' \<in> set (buf (queue (mq (world s)))) \<Longrightarrow> JobID m' \<noteq> JobID m"
    and "\<And>m'. received s = Some m' \<Longrightarrow> JobID m' \<noteq> JobID m"
    and "\<And>m' ph'. (m', ph') \<in> set L \<union> set R \<Longrightarrow> ph' \<noteq> Releasing \<Longrightarrow> JobID m' \<noteq> JobID m"
proof -
  let ?i = "JobID m"
  note d' = d [unfolded inflight_split [OF g]]
  have n1: "?i \<notin> set (map JobID (buf (queue (mq (world s)))))" using d' by auto
  have n2: "?i \<notin> set (case received s of None \<Rightarrow> [] | Some m \<Rightarrow> [JobID m])" using d' by auto
  have n3: "?i \<notin> set (map (\<lambda>g. JobID (fst g)) (filter (\<lambda>g. snd g \<noteq> Releasing) L))" using d' by auto
  have n4: "?i \<notin> set (map (\<lambda>g. JobID (fst g)) (filter (\<lambda>g. snd g \<noteq> Releasing) R))" using d' by auto
  show "JobID m' \<noteq> ?i" if "m' \<in> set (buf (queue (mq (world s))))" for m'
  proof
    assume e: "JobID m' = ?i"
    from that have "JobID m' \<in> set (map JobID (buf (queue (mq (world s)))))" by simp
    with e n1 show False by simp
  qed
  show "JobID m' \<noteq> ?i" if "received s = Some m'" for m'
    using n2 that by auto
  show "JobID m' \<noteq> ?i" if "(m', ph') \<in> set L \<union> set R" "ph' \<noteq> Releasing" for m' ph'
  proof
    assume e: "JobID m' = ?i"
    from that have "(m', ph') \<in> set (filter (\<lambda>g. snd g \<noteq> Releasing) L)
                  \<or> (m', ph') \<in> set (filter (\<lambda>g. snd g \<noteq> Releasing) R)" by auto
    then have "JobID (fst (m', ph')) \<in> set (map (\<lambda>g. JobID (fst g)) (filter (\<lambda>g. snd g \<noteq> Releasing) L))
             \<or> JobID (fst (m', ph')) \<in> set (map (\<lambda>g. JobID (fst g)) (filter (\<lambda>g. snd g \<noteq> Releasing) R))"
      unfolding set_map by (blast intro: imageI)
    with e n3 n4 show False by simp
  qed
qed

lemma inv_begin:
  assumes inv: "sys_inv s" and g: "goroutines s = L @ (m, Starting) # R"
      and pb: "processJob_begin (world s) m now = (Returns found, w', calls)"
  shows "sys_inv (s\<lparr> world := w',
                    goroutines := L @ (m, case found of None \<Rightarrow> Releasing | Some job \<Rightarrow> Executing job) # R,
                    journal := journal s @ calls \<rparr>)"
proof -
  let ?w = "world s" and ?J = "journal s" and ?i = "JobID m" and ?n = "next_addr (hp (world s))"
  note I = sys_invD [OF inv]
  have st: "(m, Starting) \<in> set (goroutines s)" using g by simp
  have wi: "written ?i ?J = [JobStatusPending]" using I(6) [of m] st by simp
  then have "jobs (db ?w) ?i \<noteq> None" using I(3) [of ?i] by simp
  then obtain a where a: "jobs (db ?w) ?i = Some a" by blast
  from I(2) [OF a] obtain j where j: "jobs_at (hp ?w) a = Some j" "ID j = ?i" by blast
  note e = begin_found [OF pb I(1) a j]
  from e have found: "found = Some ?n" and grow: "heap_grows (hp ?w) (hp w')"
    and dbw: "jobs (db w') = (jobs (db ?w))(?i \<mapsto> ?n)"
    and calls: "calls = [CallUpdateJob ?i JobStatusProcessing None]"
    and mqw: "mq w' = mq ?w" by blast+
  from e obtain j' where j': "jobs_at (hp w') ?n = Some j'" "ID j' = ?i" by blast
  let ?s' = "s\<lparr> world := w', goroutines := L @ (m, Executing ?n) # R, journal := ?J @ calls \<rparr>"
  have wf': "heap_wf (hp w')" using grow by (rule heap_grows_wf)
  have old: "jobs_at (hp w') b = Some x" if "jobs_at (hp ?w) b = Some x" for b x
    using grow that heap_wfD [OF I(1) that] by (simp add: heap_grows_def)
  have w_other: "written i (?J @ calls) = written i ?J" if "i \<noteq> ?i" for i
    using that by (simp add: written_append calls)
  have w_new: "written ?i (?J @ calls) = [JobStatusPending, JobStatusProcessing]"
    by (simp add: written_append calls wi)
  have ph: "Starting \<noteq> Releasing" by simp
  note oth = inflight_others [OF I(5) g ph]
  have "sys_inv ?s'"
  proof (rule sys_invI)
    show "heap_wf (hp (world ?s'))" using wf' by simp
  next
    fix i b assume ib: "jobs (db (world ?s')) i = Some b"
    show "\<exists>x. jobs_at (hp (world ?s')) b = Some x \<and> ID x = i"
    proof (cases "i = ?i")
      case True
      with ib dbw have "b = ?n" by simp
      with j' True show ?thesis by simp
    next
      case False
      with ib dbw have "jobs (db ?w) i = Some b" by simp
      from I(2) [OF this] obtain x where "jobs_at (hp ?w) b = Some x" "ID x = i" by blast
      with old [of b x] show ?thesis by simp
    qed
  next
    fix i show "(jobs (db (world ?s')) i = None) = (written i (journal ?s') = [])"
      using dbw I(3) [of i] w_other w_new by (cases "i = ?i") auto
  next
    fix i show "lifecycle (written i (journal ?s'))"
      using w_other w_new I(4) [of i] lifecycle_simps by (cases "i = ?i") auto
  next
    show "distinct (inflight_ids ?s')"
      using I(5) g by (simp add: inflight_ids_def mqw)
  next
    fix m' assume "m' \<in> set (buf (queue (mq (world ?s')))) \<or> received ?s' = Some m'
                 \<or> (m', Starting) \<in> set (goroutines ?s')"
    then have c: "m' \<in> set (buf (queue (mq ?w))) \<or> received s = Some m'
                 \<or> (m', Starting) \<in> set L \<union> set R" by (auto simp: mqw)
    then have "JobID m' \<noteq> ?i" using oth by blast
    moreover from c have "written (JobID m') ?J = [JobStatusPending]"
      using I(6) [of m'] g by auto
    ultimately show "written (JobID m') (journal ?s') = [JobStatusPending]"
      by (simp add: w_other)
  next
    fix m' b assume "(m', Executing b) \<in> set (goroutines ?s')"
    then consider "m' = m" "b = ?n" | "(m', Executing b) \<in> set L \<union> set R" by auto
    then show "written (JobID m') (journal ?s') = [JobStatusPending, JobStatusProcessing]
              \<and> (\<exists>x. jobs_at (hp (world ?s')) b = Some x \<and> ID x = JobID m')"
    proof cases
      case 1
      then show ?thesis using w_new j' by simp
    next
      case 2
      then have ne: "JobID m' \<noteq> ?i" using oth(3) [of m' "Executing b"] by simp
      from 2 have "(m', Executing b) \<in> set (goroutines s)" using g by auto
      from I(7) [OF this] obtain x where
        "written (JobID m') ?J = [JobStatusPending, JobStatusProcessing]"
        "jobs_at (hp ?w) b = Some x" "ID x = JobID m'" by blast
      with ne old [of b x] show ?thesis by (simp add: w_other)
    qed
  qed
  then show ?thesis by (simp add: found)
qed

lemma inv_finish:
  assumes inv: "sys_inv s" and g: "goroutines s = L @ (m, Executing job) # R"
      and pe: "processJob_end (world s) m job yt ff now = (Returns u, w', calls)"
  shows "sys_inv (s\<lparr> world := w', goroutines := L @ (m, Releasing) # R, journal := journal s @ calls \<rparr>)"
proof -
  let ?w = "world s" and ?J = "journal s" and ?i = "JobID m"
  note I = sys_invD [OF inv]
  have ex: "(m, Executing job) \<in> set (goroutines s)" using g by simp
  from I(7) [OF ex] obtain j where wi: "written ?i ?J = [JobStatusPending, JobStatusProcessing]"
    and j: "jobs_at (hp ?w) job = Some j" "ID j = ?i" by blast
  have present: "jobs (db ?w) ?i \<noteq> None" using I(3) [of ?i] wi by simp
  note e = end_shape [OF pe j present]
  from e have nx: "next_addr (hp ?w) \<le> next_addr (hp w')"
    and same: "\<And>b. b \<noteq> job \<Longrightarrow> jobs_at (hp w') b = jobs_at (hp ?w) b"
    and dbw: "jobs (db w') = (jobs (db ?w))(?i \<mapsto> job)"
    and mqw: "mq w' = mq ?w"
    and calls: "calls = [CallUpdateJob ?i JobStatusCompleted None]
              \<or> calls = [CallUpdateJob ?i JobStatusFailed None]" by blast+
  from e obtain j' where j': "jobs_at (hp w') job = Some j'" "ID j' = ?i" by blast
  let ?s' = "s\<lparr> world := w', goroutines := L @ (m, Releasing) # R, journal := ?J @ calls \<rparr>"
  have w_other: "written i (?J @ calls) = written i ?J" if "i \<noteq> ?i" for i
    using that calls by (auto simp: written_append)
  have w_new: "written ?i (?J @ calls) = [JobStatusPending, JobStatusProcessing, JobStatusCompleted]
             \<or> written ?i (?J @ calls) = [JobStatusPending, JobStatusProcessing, JobStatusFailed]"
    using calls by (auto simp: written_append wi)
  have ph: "Executing job \<noteq> Releasing" by simp
  note oth = inflight_others [OF I(5) g ph]
  have keep: "jobs_at (hp w') b = Some x" if "jobs_at (hp ?w) b = Some x" "ID x \<noteq> ?i" for b x
  proof -
    from that j have "b \<noteq> job" by auto
    from same [OF this] that(1) show ?thesis by simp
  qed
  show ?thesis
  proof (rule sys_invI)
    show "heap_wf (hp (world ?s'))"
      unfolding heap_wf_def
    proof (intro allI impI)
      fix b x assume bx: "jobs_at (hp (world ?s')) b = Some x"
      show "b < next_addr (hp (world ?s'))"
      proof (cases "b = job")
        case True
        with heap_wfD [OF I(1) j(1)] nx show ?thesis by simp
      next
        case False
        from same [OF False] bx have "jobs_at (hp ?w) b = Some x" by simp
        from heap_wfD [OF I(1) this] nx show ?thesis by simp
      qed
    qed
  next
    fix i b assume ib: "jobs (db (world ?s')) i = Some b"
    show "\<exists>x. jobs_at (hp (world ?s')) b = Some x \<and> ID x = i"
    proof (cases "i = ?i")
      case True
      with ib dbw have "b = job" by simp
      with j' True show ?thesis by simp
    next
      case False
      with ib dbw have "jobs (db ?w) i = Some b" by simp
      from I(2) [OF this] obtain x where x: "jobs_at (hp ?w) b = Some x" "ID x = i" by blast
      with keep [of b x] False show ?thesis by simp
    qed
  next
    fix i show "(jobs (db (world ?s')) i = None) = (written i (journal ?s') = [])"
      using dbw I(3) [of i] w_other w_new by (cases "i = ?i") auto
  next
    fix i show "lifecycle (written i (journal ?s'))"
      using w_other w_new I(4) [of i] lifecycle_simps by (cases "i = ?i") auto
  next
    show "distinct (inflight_ids ?s')"
      using I(5) g by (simp add: inflight_ids_def mqw)
  next
    fix m' assume "m' \<in> set (buf (queue (mq (world ?s')))) \<or> received ?s' = Some m'
                 \<or> (m', Starting) \<in> set (goroutines ?s')"
    then have c: "m' \<in> set (buf (queue (mq ?w))) \<or> received s = Some m'
                 \<or> (m', Starting) \<in> set L \<union> set R" by (auto simp: mqw)
    then have "JobID m' \<noteq> ?i" using oth by blast
    moreover from c have "written (JobID m') ?J = [JobStatusPending]"
      using I(6) [of m'] g by auto
    ultimately show "written (JobID m') (journal ?s') = [JobStatusPending]"
      by (simp add: w_other)
  next
    fix m' b assume "(m', Executing b) \<in> set (goroutines ?s')"
    then have 2: "(m', Executing b) \<in> set L \<union> set R" by auto
    then have ne: "JobID m' \<noteq> ?i" using oth(3) [of m' "Executing b"] by simp
    from 2 have "(m', Executing b) \<in> set (goroutines s)" using g by auto
    from I(7) [OF this] obtain x where
      "written (JobID m') ?J = [JobStatusPending, JobStatusProcessing]"
      "jobs_at (hp ?w) b = Some x" "ID x = JobID m'" by blast
    with ne keep [of b x] show "written (JobID m') (journal ?s') = [JobStatusPending, JobStatusProcessing]
              \<and> (\<exists>x. jobs_at (hp (world ?s')) b = Some x \<and> ID x = JobID m')"
      by (simp add: w_other)
  qed
qed

lemma start_inv: "start_system c = Returns s \<Longrightarrow> sys_inv s"
  by (auto simp: start_system_def NewInMemoryQueue_def make_chan_def sys_inv_def heap_wf_def
                 heap_empty_def NewInMemoryDB_def inflight_ids_def lifecycle_def lifecycle_prefix_def
           split: outcome.splits if_splits)

lemma step_inv: "step s s' \<Longrightarrow> sys_inv s \<Longrightarrow> sys_inv s'"
proof (induction rule: step.induct)
  case (submit s r jobID now pick resp w' calls)
  then show ?case by (intro inv_submit)
next
  case (shutdown s q')
  then show ?case by (intro inv_shutdown)
next
  case (receive s m ms)
  then show ?case by (intro inv_receive)
next
  case (acquire s m)
  then show ?case by (intro inv_acquire)
next
  case (begin_job i s m now found w' calls)
  have g: "goroutines s = take i (goroutines s) @ (m, Starting) # drop (Suc i) (goroutines s)"
    using begin_job(1,2) by (metis id_take_nth_drop)
  have u: "(goroutines s)[i := x] = take i (goroutines s) @ x # drop (Suc i) (goroutines s)" for x
    using begin_job(1) by (rule upd_conv_take_nth_drop)
  from inv_begin [OF begin_job(4) g begin_job(3)] show ?case by (simp add: u)
next
  case (finish_job i s m job yt ff now u' w' calls)
  have g: "goroutines s = take i (goroutines s) @ (m, Executing job) # drop (Suc i) (goroutines s)"
    using finish_job(1,2) by (metis id_take_nth_drop)
  have u: "(goroutines s)[i := x] = take i (goroutines s) @ x # drop (Suc i) (goroutines s)" for x
    using finish_job(1) by (rule upd_conv_take_nth_drop)
  from inv_finish [OF finish_job(4) g finish_job(3)] show ?case by (simp add: u)
next
  case (release i s m tok toks)
  have g: "goroutines s = take i (goroutines s) @ (m, Releasing) # drop (Suc i) (goroutines s)"
    using release(1,2) by (metis id_take_nth_drop)
  from inv_release [OF release(4) g] show ?case .
qed

lemma reachable_inv: "step\<^sup>*\<^sup>* s0 s \<Longrightarrow> sys_inv s0 \<Longrightarrow> sys_inv s"
  by (induction rule: rtranclp_induct) (auto intro: step_inv)

subsection \<open>The calls made for a job\<close>

lemma calls_invD:
  assumes "calls_inv s"
  shows "\<And>i. job_path i (job_calls i (journal s))"
    and "\<And>m. m \<in> set (messages s) \<Longrightarrow> CallPublish (JobID m) None \<in> set (journal s)"
  using assms unfolding calls_inv_def by blast+

lemma calls_invI:
  assumes "\<And>i. job_path i (job_calls i (journal s))"
    and "\<And>m. m \<in> set (messages s) \<Longrightarrow> CallPublish (JobID m) None \<in> set (journal s)"
  shows "calls_inv s"
  unfolding calls_inv_def using assms by blast

lemma job_path_simps:
  "job_path i []"
  "job_path i [CallCreateJob i JobStatusPending None]"
  "job_path i [CallCreateJob i JobStatusPending None, CallPublish i None]"
  "job_path i [CallCreateJob i JobStatusPending None, CallPublish i None,
               CallUpdateJob i JobStatusProcessing None]"
  "job_path i [CallCreateJob i JobStatusPending None, CallPublish i None,
               CallUpdateJob i JobStatusProcessing None, CallUpdateJob i JobStatusCompleted None]"
  "job_path i [CallCreateJob i JobStatusPending None, CallPublish i None,
               CallUpdateJob i JobStatusProcessing None, CallUpdateJob i JobStatusFailed None]"
  "cs \<in> set (rejected_path i) \<Longrightarrow> job_path i cs"
  by (simp_all add: job_path_def processed_path_def)

lemma messages_phase:
  assumes "i < length (goroutines s)" "goroutines s ! i = (m, ph)" "mq w' = mq (world s)"
  shows "messages (s\<lparr> world := w', goroutines := (goroutines s)[i := (m, ph')], journal := J \<rparr>)
           = messages s"
proof -
  have "map fst ((goroutines s)[i := (m, ph')]) = (map fst (goroutines s))[i := m]"
    by (simp add: map_update)
  also have "\<dots> = map fst (goroutines s)"
    using assms(1,2) by (metis fst_conv list_update_id nth_map)
  finally show ?thesis by (simp add: messages_def assms(3))
qed

lemma calls_submit:
  assumes inv: "sys_inv s" and tr: "calls_inv s"
      and he: "handleExtract (world s) r jobID now pick = (resp, w', calls)"
  shows "calls_inv (s\<lparr> world := w', journal := journal s @ calls \<rparr>)"
proof -
  let ?J = "journal s"
  let ?s' = "s\<lparr> world := w', journal := journal s @ calls \<rparr>"
  note T = calls_invD [OF tr]
  have keep: "CallPublish (JobID m) None \<in> set (journal ?s')" if "m \<in> set (messages s)" for m
    using T(2) [OF that] by simp
  have same: "messages ?s' = messages s" if "buf (queue (mq w')) = buf (queue (mq (world s)))"
    using that by (simp add: messages_def)
  have fresh: "job_calls jobID ?J = []" if "jobs (db (world s)) jobID = None"
    using path_facts(1) [OF T(1)] sys_invD(3) [OF inv, of jobID] that by simp
  from handleExtract_calls [OF he] show ?thesis
  proof (elim disjE conjE exE)
    assume q: "buf (queue (mq w')) = buf (queue (mq (world s)))" "\<forall>i. job_calls i calls = []"
    show ?thesis
    proof (rule calls_invI)
      fix i show "job_path i (job_calls i (journal ?s'))"
        using T(1) [of i] q(2) by (simp add: job_calls_append)
    next
      fix m assume "m \<in> set (messages ?s')"
      then show "CallPublish (JobID m) None \<in> set (journal ?s')"
        using keep [of m] same [OF q(1)] by simp
    qed
  next
    assume f: "jobs (db (world s)) jobID = None" "\<forall>i. i \<noteq> jobID \<longrightarrow> job_calls i calls = []"
       "buf (queue (mq w')) = buf (queue (mq (world s)))"
       "job_calls jobID calls = [CallCreateJob jobID JobStatusPending None]"
    show ?thesis
    proof (rule calls_invI)
      fix i show "job_path i (job_calls i (journal ?s'))"
        using T(1) [of i] f(2,4) fresh [OF f(1)] job_path_simps(2) [of jobID]
        by (cases "i = jobID") (simp_all add: job_calls_append)
    next
      fix m assume "m \<in> set (messages ?s')"
      then show "CallPublish (JobID m) None \<in> set (journal ?s')"
        using keep [of m] same [OF f(3)] by simp
    qed
  next
    assume f: "jobs (db (world s)) jobID = None" "\<forall>i. i \<noteq> jobID \<longrightarrow> job_calls i calls = []"
       "buf (queue (mq w')) = buf (queue (mq (world s)))"
       "job_calls jobID calls \<in> set (rejected_path jobID)"
    show ?thesis
    proof (rule calls_invI)
      fix i show "job_path i (job_calls i (journal ?s'))"
        using T(1) [of i] f(2) fresh [OF f(1)] job_path_simps(7) [OF f(4)]
        by (cases "i = jobID") (simp_all add: job_calls_append)
    next
      fix m assume "m \<in> set (messages ?s')"
      then show "CallPublish (JobID m) None \<in> set (journal ?s')"
        using keep [of m] same [OF f(3)] by simp
    qed
  next
    fix m
    assume f: "jobs (db (world s)) jobID = None" "\<forall>i. i \<noteq> jobID \<longrightarrow> job_calls i calls = []"
       "buf (queue (mq w')) = buf (queue (mq (world s))) @ [m]" "JobID m = jobID"
       "calls = [CallCreateJob jobID JobStatusPending None, CallPublish jobID None]"
    have new: "job_calls jobID calls = [CallCreateJob jobID JobStatusPending None, CallPublish jobID None]"
      by (simp add: f(5))
    show ?thesis
    proof (rule calls_invI)
      fix i show "job_path i (job_calls i (journal ?s'))"
        using T(1) [of i] f(2) new fresh [OF f(1)] job_path_simps(3) [of jobID]
        by (cases "i = jobID") (simp_all add: job_calls_append)
    next
      fix m' assume a: "m' \<in> set (messages ?s')"
      show "CallPublish (JobID m') None \<in> set (journal ?s')"
      proof (cases "m' = m")
        case True
        then show ?thesis by (simp add: f(4,5))
      next
        case False
        with a f(3) have "m' \<in> set (messages s)" by (auto simp: messages_def)
        then show ?thesis by (rule keep)
      qed
    qed
  qed
qed

lemma calls_quiet:
  assumes tr: "calls_inv s"
      and j: "journal s' = journal s"
      and w: "set (messages s') \<subseteq> set (messages s)"
  shows "calls_inv s'"
proof (rule calls_invI)
  fix i show "job_path i (job_calls i (journal s'))"
    using calls_invD(1) [OF tr, of i] by (simp add: j)
next
  fix m assume "m \<in> set (messages s')"
  with w have "m \<in> set (messages s)" by blast
  from calls_invD(2) [OF tr this] show "CallPublish (JobID m) None \<in> set (journal s')"
    by (simp add: j)
qed

lemma calls_begin:
  assumes inv: "sys_inv s" and tr: "calls_inv s"
      and g: "i < length (goroutines s)" "goroutines s ! i = (m, Starting)"
      and pb: "processJob_begin (world s) m now = (Returns found, w', calls)"
  shows "calls_inv (s\<lparr> world := w',
                    goroutines := (goroutines s)[i := (m, case found of None \<Rightarrow> Releasing | Some job \<Rightarrow> Executing job)],
                    journal := journal s @ calls \<rparr>)"
proof -
  let ?w = "world s" and ?J = "journal s" and ?i = "JobID m"
  let ?s' = "s\<lparr> world := w',
                    goroutines := (goroutines s)[i := (m, case found of None \<Rightarrow> Releasing | Some job \<Rightarrow> Executing job)],
                    journal := journal s @ calls \<rparr>"
  note I = sys_invD [OF inv] and T = calls_invD [OF tr]
  have st: "(m, Starting) \<in> set (goroutines s)" using g by (metis nth_mem)
  have wi: "written ?i ?J = [JobStatusPending]" using I(6) [of m] st by simp
  then have "jobs (db ?w) ?i \<noteq> None" using I(3) [of ?i] by simp
  then obtain a where a: "jobs (db ?w) ?i = Some a" by blast
  from I(2) [OF a] obtain j where j: "jobs_at (hp ?w) a = Some j" "ID j = ?i" by blast
  note e = begin_found [OF pb I(1) a j]
  from e have calls: "calls = [CallUpdateJob ?i JobStatusProcessing None]"
    and mqw: "mq w' = mq ?w" by blast+
  have "m \<in> set (messages s)" using st by (force simp: messages_def)
  then have pub: "CallPublish ?i None \<in> set ?J" by (rule T(2))
  have before: "job_calls ?i ?J = [CallCreateJob ?i JobStatusPending None, CallPublish ?i None]"
    by (rule path_facts(2) [OF T(1) wi pub])
  have ms: "messages ?s' = messages s" by (rule messages_phase [OF g mqw])
  show ?thesis
  proof (rule calls_invI)
    fix k show "job_path k (job_calls k (journal ?s'))"
      using T(1) [of k] before job_path_simps(4) [of ?i]
      by (cases "k = ?i") (simp_all add: job_calls_append calls)
  next
    fix m' assume "m' \<in> set (messages ?s')"
    then have "m' \<in> set (messages s)" by (simp only: ms)
    from T(2) [OF this] show "CallPublish (JobID m') None \<in> set (journal ?s')" by simp
  qed
qed

lemma calls_finish:
  assumes inv: "sys_inv s" and tr: "calls_inv s"
      and g: "i < length (goroutines s)" "goroutines s ! i = (m, Executing job)"
      and pe: "processJob_end (world s) m job yt ff now = (Returns u, w', calls)"
  shows "calls_inv (s\<lparr> world := w', goroutines := (goroutines s)[i := (m, Releasing)],
                    journal := journal s @ calls \<rparr>)"
proof -
  let ?w = "world s" and ?J = "journal s" and ?i = "JobID m"
  let ?s' = "s\<lparr> world := w', goroutines := (goroutines s)[i := (m, Releasing)],
                    journal := journal s @ calls \<rparr>"
  note I = sys_invD [OF inv] and T = calls_invD [OF tr]
  have ex: "(m, Executing job) \<in> set (goroutines s)" using g by (metis nth_mem)
  from I(7) [OF ex] obtain j where wi: "written ?i ?J = [JobStatusPending, JobStatusProcessing]"
    and j: "jobs_at (hp ?w) job = Some j" "ID j = ?i" by blast
  have present: "jobs (db ?w) ?i \<noteq> None" using I(3) [of ?i] wi by simp
  note e = end_shape [OF pe j present]
  from e have mqw: "mq w' = mq ?w"
    and calls: "calls = [CallUpdateJob ?i JobStatusCompleted None]
              \<or> calls = [CallUpdateJob ?i JobStatusFailed None]" by blast+
  have before: "job_calls ?i ?J = [CallCreateJob ?i JobStatusPending None, CallPublish ?i None,
                                   CallUpdateJob ?i JobStatusProcessing None]"
    by (rule path_facts(3) [OF T(1) wi])
  have ms: "messages ?s' = messages s" by (rule messages_phase [OF g mqw])
  show ?thesis
  proof (rule calls_invI)
    fix k show "job_path k (job_calls k (journal ?s'))"
    proof (cases "k = ?i")
      case True
      from calls show ?thesis
      proof
        assume "calls = [CallUpdateJob ?i JobStatusCompleted None]"
        then show ?thesis using before job_path_simps(5) [of ?i] True
          by (simp add: job_calls_append)
      next
        assume "calls = [CallUpdateJob ?i JobStatusFailed None]"
        then show ?thesis using before job_path_simps(6) [of ?i] True
          by (simp add: job_calls_append)
      qed
    next
      case False
      then have "job_calls k calls = []" using calls by auto
      then show ?thesis using T(1) [of k] by (simp add: job_calls_append)
    qed
  next
    fix m' assume "m' \<in> set (messages ?s')"
    then have "m' \<in> set (messages s)" by (simp only: ms)
    from T(2) [OF this] show "CallPublish (JobID m') None \<in> set (journal ?s')" by simp
  qed
qed

lemma start_calls: "start_system c = Returns s \<Longrightarrow> calls_inv s"
  by (auto simp: start_system_def NewInMemoryQueue_def make_chan_def calls_inv_def messages_def
                 job_path_def processed_path_def
           split: outcome.splits if_splits)

lemma step_calls: "step s s' \<Longrightarrow> sys_inv s \<Longrightarrow> calls_inv s \<Longrightarrow> calls_inv s'"
proof (induction rule: step.induct)
  case (submit s r jobID now pick resp w' calls)
  then show ?case by (intro calls_submit)
next
  case (shutdown s q')
  show ?case
    by (rule calls_quiet [OF shutdown(3)]) (use Close_buf [OF shutdown(1)] in \<open>auto simp: messages_def\<close>)
next
  case (receive s m ms)
  show ?case
    by (rule calls_quiet [OF receive(4)]) (use receive(1,2) in \<open>auto simp: messages_def\<close>)
next
  case (acquire s m)
  show ?case
    by (rule calls_quiet [OF acquire(4)]) (use acquire(1) in \<open>auto simp: messages_def\<close>)
next
  case (begin_job i s m now found w' calls)
  from calls_begin [OF begin_job(4,5,1,2,3)] show ?case .
next
  case (finish_job i s m job yt ff now u' w' calls)
  from calls_finish [OF finish_job(4,5,1,2,3)] show ?case .
next
  case (release i s m tok toks)
  show ?case
    by (rule calls_quiet [OF release(5)])
       (auto simp: messages_def dest: in_set_takeD in_set_dropD split: option.splits)
qed

lemma reachable_calls:
  "step\<^sup>*\<^sup>* s0 s \<Longrightarrow> sys_inv s0 \<Longrightarrow> calls_inv s0 \<Longrightarrow> sys_inv s \<and> calls_inv s"
  by (induction rule: rtranclp_induct) (auto intro: step_inv step_calls)

subsection \<open>A run\<close>

lemma quota_cfg_workers: "MaxWorkers (quota_cfg q) = 3"
  by (simp add: quota_cfg_def LoadConfig_def Atoi_def DefaultMaxWorkers_def)

lemma quota_cfg_port: "APIGatewayPort (quota_cfg q) = []" "WorkerPort (quota_cfg q) = []"
  by (simp_all add: quota_cfg_def LoadConfig_def)

lemma run_start: "start_system (quota_cfg 300) = Returns run_s0"
  by (simp add: start_system_def NewInMemoryQueue_def make_chan_def quota_cfg_workers run_s0_def
        fresh_world_def quota_cfg_port)

lemma run_submit:
  "\<exists>resp. handleExtract (world run_s0) run_request ''j1'' 0 0 =
     (resp, run_w1, [CallCreateJob ''j1'' JobStatusPending None, CallPublish ''j1'' None])"
  by (simp add: run_s0_def run_w1_def handleExtract_def fresh_world_def run_request_def
        run_message_def run_job_def new_Job_def heap_empty_def CreateJob_def NewInMemoryDB_def
        Publish_def ready_cases_def can_send_def can_recv_def)

lemma run_begin:
  "processJob_begin (world run_s3) run_message 1 =
     (Returns (Some 1), run_w4, [CallUpdateJob ''j1'' JobStatusProcessing None])"
  by (simp add: run_s3_def run_s2_def run_w4_def run_w2_def run_w1_def processJob_begin_def
        fresh_world_def run_message_def run_job_def GetJob_def new_Job_def new_Time_def
        assign_Job_def update_call_def UpdateJob_def fun_upd_twist eval_nat_numeral)

lemma run_end:
  "processJob_end (world run_s4) run_message 1 (Inr (''https://cdn/x'', run_metadata))
       (Inr ''output/j1.mp3'') 2 =
     (Returns (), run_w5, [CallUpdateJob ''j1'' JobStatusCompleted None])"
  by (simp add: run_s4_def run_w5_def run_w4_def run_w2_def run_w1_def processJob_end_def
        fresh_world_def run_message_def run_job_def new_Metadata_def new_Time_def
        assign_Job_def update_call_def UpdateJob_def quota_cfg_port fun_upd_twist eval_nat_numeral)

lemma run_steps:
  "step run_s0 run_s1" "step run_s1 run_s2" "step run_s2 run_s3" "step run_s3 run_s4"
  "step run_s4 run_s5"
proof -
  from run_submit obtain resp where
    "handleExtract (world run_s0) run_request ''j1'' 0 0 =
       (resp, run_w1, [CallCreateJob ''j1'' JobStatusPending None, CallPublish ''j1'' None])" ..
  from step.submit [OF this] show "step run_s0 run_s1"
    by (simp add: run_s1_def run_s0_def)
  have "received run_s1 = None" "buf (queue (mq (world run_s1))) = run_message # []"
    by (simp_all add: run_s1_def run_s0_def run_w1_def)
  from step.receive [OF this] show "step run_s1 run_s2"
    by (simp add: run_s2_def run_s1_def run_s0_def run_w2_def run_w1_def fresh_world_def)
  have "received run_s2 = Some run_message" "length (buf (workerLimiter run_s2)) < cap (workerLimiter run_s2)"
    by (simp_all add: run_s2_def run_s1_def run_s0_def)
  from step.acquire [OF this] show "step run_s2 run_s3"
    by (simp add: run_s3_def run_s2_def run_s1_def run_s0_def)
  have g3: "0 < length (goroutines run_s3)" "goroutines run_s3 ! 0 = (run_message, Starting)"
    by (simp_all add: run_s3_def)
  from step.begin_job [OF g3 run_begin] show "step run_s3 run_s4"
    by (simp add: run_s4_def run_s3_def run_s2_def run_s1_def run_s0_def)
  have g4: "0 < length (goroutines run_s4)" "goroutines run_s4 ! 0 = (run_message, Executing 1)"
    by (simp_all add: run_s4_def)
  from step.finish_job [OF g4 run_end] show "step run_s4 run_s5"
    by (simp add: run_s5_def run_s4_def run_s3_def run_s2_def run_s1_def run_s0_def)
qed

lemma run_reaches: "step\<^sup>*\<^sup>* run_s0 run_s4" "step\<^sup>*\<^sup>* run_s0 run_s5"
proof -
  show a: "step\<^sup>*\<^sup>* run_s0 run_s4"
    using run_steps(1,2,3,4) by (meson rtranclp.rtrancl_into_rtrancl rtranclp.rtrancl_refl)
  from a run_steps(5) show "step\<^sup>*\<^sup>* run_s0 run_s5" by (rule rtranclp.rtrancl_into_rtrancl)
qed

lemma run_rejected_calls:
  "snd (snd (handleExtract (world run_closed) run_request ''j2'' 0 1))
     = [CallCreateJob ''j2'' JobStatusPending None, CallPublish ''j2'' (Some QueueClosed),
        CallUpdateJob ''j2'' JobStatusFailed None]"
  by (simp add: run_closed_def run_s0_def fresh_world_def run_request_def handleExtract_def
        new_Job_def heap_empty_def CreateJob_def NewInMemoryDB_def Publish_def ready_cases_def
        can_send_def can_recv_def assign_Job_def UpdateJob_def)

lemma run_rejected_steps: "step run_s0 run_closed" "step run_closed run_rejected"
proof -
  have "Close (mq (world run_s0))
          = Returns \<lparr> queue = \<lparr> buf = [], cap = 100, closed = True \<rparr>,
                      stop = \<lparr> buf = [], cap = 0, closed = True \<rparr>, once = True \<rparr>"
    by (simp add: run_s0_def fresh_world_def Close_def close_chan_def)
  from step.shutdown [OF this] show "step run_s0 run_closed"
    by (simp add: run_closed_def run_s0_def)
  have "handleExtract (world run_closed) run_request ''j2'' 0 1
          = (fst (handleExtract (world run_closed) run_request ''j2'' 0 1),
             fst (snd (handleExtract (world run_closed) run_request ''j2'' 0 1)),
             snd (snd (handleExtract (world run_closed) run_request ''j2'' 0 1)))"
    by simp
  from step.submit [OF this] show "step run_closed run_rejected"
    by (simp add: run_rejected_def run_closed_def run_s0_def)
qed

lemma run_rejected_reaches: "step\<^sup>*\<^sup>* run_s0 run_rejected"
  using run_rejected_steps by (meson rtranclp.rtrancl_into_rtrancl rtranclp.rtrancl_refl)

lemma run_rejected_journal:
  "journal run_rejected
     = [CallCreateJob ''j2'' JobStatusPending None, CallPublish ''j2'' (Some QueueClosed),
        CallUpdateJob ''j2'' JobStatusFailed None]"
  by (simp add: run_rejected_def run_rejected_calls del: One_nat_def)

subsection \<open>Claims about the system\<close>

text \<open>
  Claim C3.  Start the system with any configuration for which \<open>main\<close> gets as far as making
  the semaphore, and let gateway, dispatch loop and goroutines take steps in any order.  In
  every state reached, the executions in flight (the goroutines that have not released
  their slot, so all the more those still inside \<open>processJob\<close>) are at most \<open>MaxWorkers\<close>, and
  there are exactly as many of them as tokens in \<open>workerLimiter\<close>.
\<close>

theorem executions_bounded_by_MaxWorkers:
  assumes "start_system c = Returns s0" and "step\<^sup>*\<^sup>* s0 s"
  shows "int (executing s) \<le> MaxWorkers c \<and> int (in_flight s) \<le> MaxWorkers c
         \<and> in_flight s = length (buf (workerLimiter s))"
proof -
  have "slots_inv c s" using assms by (auto intro: reachable_slots start_slots)
  moreover have "executing s \<le> in_flight s" by (simp add: executing_def in_flight_def)
  ultimately show ?thesis by (auto simp: slots_inv_def in_flight_def)
qed

text \<open>The theorem at work: in the run above, while \<open>j1\<close> executes, one execution is in flight.\<close>

theorem executions_bounded_by_MaxWorkers_witness:
  "int (executing run_s4) \<le> MaxWorkers (quota_cfg 300) \<and> executing run_s4 = 1
   \<and> in_flight run_s4 = length (buf (workerLimiter run_s4))"
  using executions_bounded_by_MaxWorkers [OF run_start run_reaches(1)]
  by (simp add: executing_def run_s4_def)

text \<open>
  Claim C1, as the code has it.  The system is the one both \<open>main\<close>s build: the volatile store,
  the volatile queue of capacity 100, and \<open>MaxWorkers\<close> slots; submissions, the closing of the
  queue, the dispatch loop and the goroutines take steps in any order, and no job is deleted
  through the admin endpoint.  In every state it reaches, and for every job id, one of two
  things holds.  Either the calls made for the job are the first calls of \<open>CreateJob\<close> with
  \<open>Pending\<close>, a \<open>Publish\<close> that succeeded, \<open>UpdateJob\<close> with \<open>Processing\<close>, \<open>UpdateJob\<close> with
  \<open>Completed\<close> or \<open>Failed\<close>, and the statuses written are a prefix of
  \<open>Pending, Processing, {Completed | Failed}\<close>.  Or the calls are \<open>CreateJob\<close> with \<open>Pending\<close>,
  a \<open>Publish\<close> that returned \<open>QueueFull\<close> or \<open>QueueClosed\<close>, and \<open>UpdateJob\<close> with \<open>Failed\<close>, and
  the statuses written are \<open>Pending, Failed\<close>: that is \<open>handleExtract\<close> marking a job it could
  not put on the queue.  Every message in the queue, with the dispatch loop or with a
  goroutine belongs to a job of the first kind, so \<open>processJob\<close> writes \<open>Failed\<close> only for a
  job that is \<open>Processing\<close>.  No status is written after \<open>Completed\<close> or \<open>Failed\<close>, and none goes
  back.
\<close>

theorem status_writes_follow_lifecycle:
  assumes "start_system c = Returns s0" and "step\<^sup>*\<^sup>* s0 s"
  shows "((job_calls i (journal s) \<in> set (processed_path i)
             \<and> lifecycle_prefix (written i (journal s)))
          \<or> (job_calls i (journal s) \<in> set (rejected_path i)
             \<and> written i (journal s) = [JobStatusPending, JobStatusFailed]))
       \<and> (\<forall>m \<in> set (messages s).
             job_calls (JobID m) (journal s) \<in> set (processed_path (JobID m)))"
proof -
  have c: "calls_inv s"
    using reachable_calls [OF assms(2) start_inv [OF assms(1)] start_calls [OF assms(1)]] ..
  then have "job_path i (job_calls i (journal s))" by (rule calls_invD(1))
  then have "(job_calls i (journal s) \<in> set (processed_path i)
             \<and> lifecycle_prefix (written i (journal s)))
          \<or> (job_calls i (journal s) \<in> set (rejected_path i)
             \<and> written i (journal s) = [JobStatusPending, JobStatusFailed])"
    by (rule path_statuses)
  moreover have "job_calls (JobID m) (journal s) \<in> set (processed_path (JobID m))"
    if "m \<in> set (messages s)" for m
    by (rule published_path [OF calls_invD(1) [OF c] calls_invD(2) [OF c that]])
  ultimately show ?thesis by blast
qed

text \<open>
  The theorem at work.  In the first run \<open>j1\<close> goes through \<open>Pending, Processing, Completed\<close>,
  and the one message the worker has is that of \<open>j1\<close>.  In the second run \<open>j2\<close> could not be
  put on the closed queue and goes through \<open>Pending, Failed\<close>.
\<close>

theorem status_writes_follow_lifecycle_witness:
  "job_calls ''j1'' (journal run_s5)
     = [CallCreateJob ''j1'' JobStatusPending None, CallPublish ''j1'' None,
        CallUpdateJob ''j1'' JobStatusProcessing None, CallUpdateJob ''j1'' JobStatusCompleted None]
   \<and> job_calls ''j1'' (journal run_s5) \<in> set (processed_path ''j1'')
   \<and> lifecycle_prefix (written ''j1'' (journal run_s5))
   \<and> written ''j1'' (journal run_s5) = [JobStatusPending, JobStatusProcessing, JobStatusCompleted]
   \<and> messages run_s5 = [run_message]
   \<and> job_calls (JobID run_message) (journal run_s5) \<in> set (processed_path (JobID run_message))
   \<and> job_calls ''j2'' (journal run_rejected) \<in> set (rejected_path ''j2'')
   \<and> written ''j2'' (journal run_rejected) = [JobStatusPending, JobStatusFailed]"
  using status_writes_follow_lifecycle [OF run_start run_reaches(2), of "''j1''"]
        status_writes_follow_lifecycle [OF run_start run_rejected_reaches, of "''j2''"]
  by (simp add: run_s5_def run_s4_def run_s3_def run_s2_def run_s1_def run_s0_def run_w5_def
        run_w4_def run_w2_def run_w1_def fresh_world_def messages_def run_message_def
        run_rejected_journal rejected_path_def processed_path_def lifecycle_prefix_def)

end
